theory Spec2Isabelle
  imports Complex_Main "HOL-Library.Sublist" "HOL-Library.AList"
begin

section \<open>Requests and string helpers\<close>

text \<open>
  The fields of an Express request that the traffic-control middleware reads.
  \<open>userAgent\<close> is \<open>req.get('User-Agent')\<close> and \<open>authorization\<close> is
  \<open>req.headers.authorization\<close>; both are absent (\<open>None\<close>) when the header is
  not sent.
\<close>

record request =
  ip :: string
  path :: string
  originalUrl :: string
  httpMethod :: string
  userAgent :: "string option"
  authorization :: "string option"

text \<open>\<open>String.prototype.includes\<close>: the argument occurs as a contiguous substring.\<close>

fun str_includes :: "string \<Rightarrow> string \<Rightarrow> bool" where
  "str_includes [] sub = (sub = [])"
| "str_includes (c # cs) sub = (prefix sub (c # cs) \<or> str_includes cs sub)"

text \<open>\<open>String.prototype.startsWith\<close>.\<close>

definition startsWith :: "string \<Rightarrow> string \<Rightarrow> bool" where
  "startsWith s p = prefix p s"

text \<open>\<open>req.path.includes('/admin') || req.path.includes('/analytics')\<close>, the test
  both the stability rate limiter and the request queue use for privileged paths.\<close>

definition isAdminPath :: "request \<Rightarrow> bool" where
  "isAdminPath req = (str_includes (path req) ''/admin'' \<or> str_includes (path req) ''/analytics'')"

section \<open>Stability rate limiter: dynamic maximum\<close>

text \<open>
  \<open>createStabilityRateLimit\<close>, option \<open>max\<close>:
  \<^verbatim>\<open>
  let maxRequests = options.max || 100;
  if (memoryMonitor.isUnderPressure) maxRequests = Math.floor(maxRequests * 0.5);
  if (req.path.includes('/admin') || req.path.includes('/analytics'))
    maxRequests = Math.max(maxRequests * 4, 200);
  return maxRequests;
  \<close>
  \<open>options.max\<close> is an integer or absent; \<open>||\<close> replaces an absent value and 0 by 100.
\<close>

definition baseMax :: "int option \<Rightarrow> int" where
  "baseMax m = (case m of None \<Rightarrow> 100 | Some k \<Rightarrow> if k = 0 then 100 else k)"

definition stability_max :: "int option \<Rightarrow> bool \<Rightarrow> request \<Rightarrow> int" where
  "stability_max optMax underPressure req =
     (let maxRequests = baseMax optMax;
          maxRequests = (if underPressure then \<lfloor>real_of_int maxRequests * 0.5\<rfloor> else maxRequests);
          maxRequests = (if isAdminPath req then max (maxRequests * 4) 200 else maxRequests)
      in maxRequests)"

text \<open>The formula as the specification words it: the base limit times 0.5 under
  pressure (times 1 otherwise), and on an admin path four times that with a floor of 200.\<close>

definition spec_effectiveMax :: "int \<Rightarrow> bool \<Rightarrow> bool \<Rightarrow> real" where
  "spec_effectiveMax base underPressure adminPath =
     (let halved = real_of_int base * (if underPressure then 0.5 else 1.0)
      in if adminPath then max (4 * halved) 200 else halved)"

section \<open>Analytics store\<close>

text \<open>
  Class \<open>RateLimitAnalytics\<close>. Times are milliseconds since the epoch. A JavaScript
  \<open>Map\<close> iterates in insertion order and \<open>set\<close> on a present key keeps its position,
  which is what \<open>AList.update\<close> does on an association list. Counters only ever
  count up from 0, so they are natural numbers.
\<close>

record requestRecord =
  r_ip :: string
  r_endpoint :: string
  r_blocked :: bool
  r_userAgent :: string
  r_method :: string
  r_timestamp :: int

record endpointStat =
  e_total :: nat
  e_blocked :: nat
  e_lastAccess :: int

record hourlyBucket =
  h_timestamp :: int
  h_requests :: nat
  h_blocked :: nat
  h_activeIPs :: nat

record realTime =
  currentRequests :: nat
  rt_blockedRequests :: nat
  topIPs :: "(string \<times> nat) list"
  topEndpoints :: "(string \<times> nat) list"

record analyticsStore =
  requests :: "(string \<times> requestRecord) list"
  violations :: "(string \<times> nat) list"
  endpoints :: "(string \<times> endpointStat) list"
  hourlyStats :: "hourlyBucket list"
  realTimeStats :: realTime

text \<open>The constructor: empty maps and zeroed counters.\<close>

definition emptyStore :: analyticsStore where
  "emptyStore = \<lparr>requests = [], violations = [], endpoints = [], hourlyStats = [],
     realTimeStats = \<lparr>currentRequests = 0, rt_blockedRequests = 0, topIPs = [],
       topEndpoints = []\<rparr>\<rparr>"

text \<open>The decimal rendering of a number inside a template string.\<close>

function digits :: "int \<Rightarrow> string" where
  "digits n = (if n < 10 then [char_of (48 + n)]
     else digits (n div 10) @ [char_of (48 + n mod 10)])"
  by pat_completeness auto
termination
  by (relation "measure nat") auto

declare digits.simps [simp del]

definition show_int :: "int \<Rightarrow> string" where
  "show_int i = (if i < 0 then CHR ''-'' # digits (- i) else digits i)"

text \<open>\<open>map.get(k) || 0\<close>\<close>

definition getOr0 :: "(string \<times> nat) list \<Rightarrow> string \<Rightarrow> nat" where
  "getOr0 m k = (case map_of m k of None \<Rightarrow> 0 | Some c \<Rightarrow> c)"

text \<open>
  \<open>logRequest(ip, endpoint, blocked, userAgent, method)\<close>. The method reads the clock
  twice: \<open>new Date()\<close> gives the record's \<open>timestamp\<close> and \<open>Date.now()\<close> the
  suffix of the record's key \<open>`${ip}-${Date.now()}`\<close>; the two readings are the
  arguments \<open>timestamp\<close> and \<open>now\<close>.
\<close>

definition logRequest ::
  "string \<Rightarrow> string \<Rightarrow> bool \<Rightarrow> string \<Rightarrow> string \<Rightarrow> int \<Rightarrow> int \<Rightarrow> analyticsStore \<Rightarrow> analyticsStore" where
  "logRequest addr endpoint blocked ua meth timestamp now a =
     (let key = addr @ ''-'' @ show_int now;
          requests1 = AList.update key
             \<lparr>r_ip = addr, r_endpoint = endpoint, r_blocked = blocked, r_userAgent = ua,
              r_method = meth, r_timestamp = timestamp\<rparr> (requests a);
          rt = realTimeStats a;
          rt1 = rt\<lparr>currentRequests := currentRequests rt + 1\<rparr>;
          rt2 = (if blocked then rt1\<lparr>rt_blockedRequests := rt_blockedRequests rt1 + 1\<rparr> else rt1);
          violations1 = (if blocked
             then AList.update addr (getOr0 (violations a) addr + 1) (violations a)
             else violations a);
          rt3 = rt2\<lparr>topIPs := AList.update addr (getOr0 (topIPs rt2) addr + 1) (topIPs rt2)\<rparr>;
          rt4 = rt3\<lparr>topEndpoints :=
             AList.update endpoint (getOr0 (topEndpoints rt3) endpoint + 1) (topEndpoints rt3)\<rparr>;
          endpoints1 = (case map_of (endpoints a) endpoint of
               None \<Rightarrow> AList.update endpoint
                  \<lparr>e_total = 0, e_blocked = 0, e_lastAccess = timestamp\<rparr> (endpoints a)
             | Some _ \<Rightarrow> endpoints a);
          endpoints2 = (case map_of endpoints1 endpoint of
               None \<Rightarrow> endpoints1
             | Some endpointStats \<Rightarrow> AList.update endpoint
                 \<lparr>e_total = e_total endpointStats + 1,
                  e_blocked = (if blocked then e_blocked endpointStats + 1 else e_blocked endpointStats),
                  e_lastAccess = timestamp\<rparr> endpoints1)
      in \<lparr>requests = requests1, violations = violations1, endpoints = endpoints2,
          hourlyStats = hourlyStats a, realTimeStats = rt4\<rparr>)"

text \<open>The records of the last hour, in the map's order.\<close>

definition inLastHour :: "int \<Rightarrow> analyticsStore \<Rightarrow> requestRecord list" where
  "inLastHour now a = filter (\<lambda>r. now - 60 * 60 * 1000 \<le> r_timestamp r) (map snd (requests a))"

text \<open>\<open>new Set(xs).size\<close> and \<open>[...new Set(xs)]\<close> (first occurrences, in order).\<close>

definition setSize :: "string list \<Rightarrow> nat" where
  "setSize xs = length (remdups xs)"

definition uniq :: "string list \<Rightarrow> string list" where
  "uniq xs = rev (remdups (rev xs))"

text \<open>\<open>updateHourlyStats()\<close>, run at clock reading \<open>now\<close>.\<close>

definition updateHourlyStats :: "int \<Rightarrow> analyticsStore \<Rightarrow> analyticsStore" where
  "updateHourlyStats now a =
     (let recent = inLastHour now a;
          hourlyRequests = length recent;
          hourlyBlocked = length (filter r_blocked recent);
          bucket = \<lparr>h_timestamp = now, h_requests = hourlyRequests, h_blocked = hourlyBlocked,
                    h_activeIPs = setSize (map r_ip recent)\<rparr>;
          dayAgo = now - 24 * 60 * 60 * 1000
      in a\<lparr>hourlyStats := filter (\<lambda>stat. dayAgo \<le> h_timestamp stat) (hourlyStats a @ [bucket])\<rparr>)"

text \<open>\<open>cleanupOldData()\<close>, run at clock reading \<open>now\<close>.\<close>

definition cleanupOldData :: "int \<Rightarrow> analyticsStore \<Rightarrow> analyticsStore" where
  "cleanupOldData now a =
     a\<lparr>requests := filter (\<lambda>(key, request). \<not> r_timestamp request < now - 60 * 60 * 1000) (requests a),
       realTimeStats := \<lparr>currentRequests = 0, rt_blockedRequests = 0, topIPs = [],
         topEndpoints = []\<rparr>\<rparr>"

text \<open>
  \<open>xs.sort((a, b) => key(b) - key(a))\<close>: a stable sort, largest key first.
\<close>

definition sortDesc :: "('a \<Rightarrow> int) \<Rightarrow> 'a list \<Rightarrow> 'a list" where
  "sortDesc key xs = sort_key (\<lambda>x. - key x) xs"

text \<open>
  The snapshot of \<open>getAnalytics()\<close>. The two \<open>blockRate\<close> fields are formatted
  floating-point numbers (\<open>toFixed(2)\<close>) and are left out; every count is kept.
\<close>

record summary =
  totalRequests :: nat
  blockedRequests :: nat
  activeIPs :: nat
  totalViolations :: nat

record analyticsSnapshot =
  snap_summary :: summary
  snap_recentRequests :: "requestRecord list"
  snap_topViolators :: "(string \<times> nat) list"
  snap_endpointStats :: "(string \<times> endpointStat) list"
  snap_hourlyStats :: "hourlyBucket list"
  snap_realTimeStats :: realTime

definition getAnalytics :: "int \<Rightarrow> analyticsStore \<Rightarrow> analyticsSnapshot" where
  "getAnalytics now a =
     (let recentRequests = take 100 (sortDesc r_timestamp (inLastHour now a));
          total = length recentRequests;
          nblocked = length (filter r_blocked recentRequests);
          topViolators = take 10 (sortDesc (\<lambda>(addr, count). int count) (violations a));
          endpointStats = take 10 (sortDesc (\<lambda>(endpoint, stats). int (e_total stats)) (endpoints a));
          nactive = setSize (map r_ip recentRequests);
          rt = realTimeStats a
      in \<lparr>snap_summary = \<lparr>totalRequests = total, blockedRequests = nblocked,
             activeIPs = nactive, totalViolations = sum_list (map snd (violations a))\<rparr>,
          snap_recentRequests = take 20 recentRequests,
          snap_topViolators = topViolators,
          snap_endpointStats = endpointStats,
          snap_hourlyStats = hourlyStats a,
          snap_realTimeStats = rt\<lparr>
             topIPs := take 5 (sortDesc (\<lambda>(k, c). int c) (topIPs rt)),
             topEndpoints := take 5 (sortDesc (\<lambda>(k, c). int c) (topEndpoints rt))\<rparr>\<rparr>)"

text \<open>\<open>getIPAnalytics(ip)\<close>.\<close>

record ipAnalytics =
  ia_ip :: string
  ia_totalRequests :: nat
  ia_blockedRequests :: nat
  ia_violations :: nat
  ia_endpoints :: "string list"
  ia_recentActivity :: "requestRecord list"

definition getIPAnalytics :: "string \<Rightarrow> analyticsStore \<Rightarrow> ipAnalytics" where
  "getIPAnalytics addr a =
     (let reqs = sortDesc r_timestamp (filter (\<lambda>r. r_ip r = addr) (map snd (requests a)))
      in \<lparr>ia_ip = addr, ia_totalRequests = length reqs,
          ia_blockedRequests = length (filter r_blocked reqs),
          ia_violations = getOr0 (violations a) addr,
          ia_endpoints = uniq (map r_endpoint reqs),
          ia_recentActivity = take 50 reqs\<rparr>)"

text \<open>
  The store's operations as data, and the states the store reaches from its constructor.
\<close>

datatype storeOp =
    LogRequest string string bool string string int int
  | UpdateHourlyStats int
  | CleanupOldData int

fun applyOp :: "analyticsStore \<Rightarrow> storeOp \<Rightarrow> analyticsStore" where
  "applyOp a (LogRequest addr endpoint blocked ua m timestamp now) =
     logRequest addr endpoint blocked ua m timestamp now a"
| "applyOp a (UpdateHourlyStats now) = updateHourlyStats now a"
| "applyOp a (CleanupOldData now) = cleanupOldData now a"

definition runOps :: "storeOp list \<Rightarrow> analyticsStore" where
  "runOps ops = foldl applyOp emptyStore ops"

section \<open>Responses\<close>

text \<open>
  The JSON bodies the middleware sends, one constructor per shape, fields in the order
  of the source:
  \<^item> \<open>RateLimitBody success message retryAfter type limit windowMs\<close>: the handler of
    \<open>createAnalyticsLimiter\<close>;
  \<^item> \<open>StabilityBody success message retryAfter systemStatus\<close>: the message of
    \<open>createStabilityRateLimit\<close>;
  \<^item> \<open>SmartBody success message retryAfter\<close>: the message of \<open>createSmartLimiter\<close>;
  \<^item> \<open>BusyBody success message code\<close>: the request queue's timeout.
\<close>

datatype body =
    RateLimitBody bool string int string "int option" int
  | StabilityBody bool string int string
  | SmartBody bool string int
  | BusyBody bool string string

record response =
  status :: nat
  json :: body

text \<open>The options object passed to the limiter factories. \<open>message_opt\<close> is the
  message text: \<open>options.message\<close> for \<open>createAnalyticsLimiter\<close>,
  \<open>options.message?.message\<close> for \<open>createStabilityRateLimit\<close>.\<close>

record options =
  windowMs :: int
  max_opt :: "int option"
  message_opt :: "string option"

text \<open>\<open>Math.round(ms / 1000)\<close> (halves round up) and \<open>Math.ceil(ms / 1000)\<close> on an
  integer number of milliseconds, with the quotient taken exactly. The code divides
  IEEE doubles: for \<open>0 \<le> ms < 2 ^ 52\<close> the quotient is below \<open>2 ^ 43\<close>, its rounding
  error is at most \<open>2 ^ -11\<close>, less than the distance \<open>1 / 1000\<close> of an inexact quotient to
  the nearest integer or half, and the integers and halves are themselves doubles, so
  both functions give what the code gives. Above that range the code may round the
  other way (at \<open>ms = 70368744177664496\<close> it gives 70368744177665 where the exact
  quotient rounds to 70368744177664); the properties that use these functions are stated
  for windows below \<open>2 ^ 52\<close> ms.\<close>

definition roundSeconds :: "int \<Rightarrow> int" where
  "roundSeconds ms = \<lfloor>real_of_int ms / 1000 + 1 / 2\<rfloor>"

definition ceilSeconds :: "int \<Rightarrow> int" where
  "ceilSeconds ms = \<lceil>real_of_int ms / 1000\<rceil>"

text \<open>\<open>x || 'Too many requests, please try again later.'\<close> on an optional string.\<close>

definition messageOrDefault :: "string option \<Rightarrow> string" where
  "messageOrDefault m =
     (case m of None \<Rightarrow> ''Too many requests, please try again later.''
      | Some t \<Rightarrow> if t = [] then ''Too many requests, please try again later.'' else t)"

section \<open>The fixed-window counter\<close>

text \<open>
  Modelled from the spec: the middleware that \<open>rateLimit(...)\<close> of the third-party package
  express-rate-limit builds is not part of the repository. Section 4.3 of the
  specification describes it: a fixed window counter per client IP, reset when
  \<open>now - windowStart \<ge> windowMs\<close>, otherwise incremented, and compared against the
  effective maximum; a request for which \<open>skip\<close> holds is passed on without being
  counted; a request over the maximum is answered by \<open>handler\<close> (by default status 429
  with the configured message) and not passed on.
\<close>

record rateLimitState =
  windowStart :: int
  hits :: nat

type_synonym counters = "string \<Rightarrow> rateLimitState option"

text \<open>
  Modelled from the spec: the counter of express-rate-limit for one key. The request at
  time \<open>now\<close> starts a window when the key has none or when \<open>now - windowStart \<ge>
  windowMs\<close>, and is the first hit of it; otherwise it adds one hit to the running
  window. The result is the number of hits, the request included.
\<close>

definition hit :: "int \<Rightarrow> int \<Rightarrow> string \<Rightarrow> counters \<Rightarrow> nat \<times> counters" where
  "hit window now key cs =
     (case cs key of
        None \<Rightarrow> (1, cs(key \<mapsto> \<lparr>windowStart = now, hits = 1\<rparr>))
      | Some st \<Rightarrow>
          if window \<le> now - windowStart st
          then (1, cs(key \<mapsto> \<lparr>windowStart = now, hits = 1\<rparr>))
          else (hits st + 1, cs(key \<mapsto> st\<lparr>hits := hits st + 1\<rparr>)))"

datatype 'r decision = Pass | Block 'r

text \<open>
  Modelled from the spec: one request through the middleware. \<open>skip\<close> and \<open>handler\<close>
  are the configured callbacks, already applied to the request; they may change the state
  \<open>'w\<close> they close over. \<open>maxHits\<close> is the configured maximum, evaluated for the request.
\<close>

definition rateLimit ::
  "int \<Rightarrow> ('w \<Rightarrow> bool \<times> 'w) \<Rightarrow> int \<Rightarrow> ('w \<Rightarrow> 'r \<times> 'w) \<Rightarrow> int \<Rightarrow> string \<Rightarrow>
   'w \<times> counters \<Rightarrow> 'r decision \<times> ('w \<times> counters)" where
  "rateLimit window skip maxHits handler now key st =
     (case st of (w, cs) \<Rightarrow>
        (case skip w of (skipped, w1) \<Rightarrow>
           if skipped then (Pass, (w1, cs))
           else (case hit window now key cs of (totalHits, cs1) \<Rightarrow>
             if maxHits < int totalHits
             then (case handler w1 of (r, w2) \<Rightarrow> (Block r, (w2, cs1)))
             else (Pass, (w1, cs1)))))"

section \<open>Analytics limiter\<close>

text \<open>
  \<open>createAnalyticsLimiter(options)\<close>: \<open>skip\<close> logs the request as not blocked and
  skips nothing; \<open>handler\<close> logs it as blocked and answers 429. Each callback calls
  \<open>logRequest\<close>, which reads the clock twice; the pair of readings is an argument.
\<close>

definition analytics_skip :: "request \<Rightarrow> int \<times> int \<Rightarrow> analyticsStore \<Rightarrow> bool \<times> analyticsStore" where
  "analytics_skip req clock a =
     (False, logRequest (ip req) (originalUrl req) False
        (case userAgent req of None \<Rightarrow> [] | Some u \<Rightarrow> u) (httpMethod req)
        (fst clock) (snd clock) a)"

text \<open>What \<open>handler\<close> sends: \<open>res.status(429).json({success: false, message, retryAfter,
  type, limit, windowMs})\<close>.\<close>

definition rejection :: "options \<Rightarrow> response" where
  "rejection opts = \<lparr>status = 429,
     json = RateLimitBody False (messageOrDefault (message_opt opts))
       (roundSeconds (windowMs opts)) ''rate_limit_exceeded'' (max_opt opts) (windowMs opts)\<rparr>"

definition analytics_handler ::
  "options \<Rightarrow> request \<Rightarrow> int \<times> int \<Rightarrow> analyticsStore \<Rightarrow> response \<times> analyticsStore" where
  "analytics_handler opts req clock a =
     (rejection opts,
      logRequest (ip req) (originalUrl req) True
        (case userAgent req of None \<Rightarrow> [] | Some u \<Rightarrow> u) (httpMethod req)
        (fst clock) (snd clock) a)"

text \<open>The clock readings while one request passes the analytics limiter: the
  counter's, and the two pairs of the callbacks.\<close>

record clocks =
  c_now :: int
  c_skip :: "int \<times> int"
  c_handler :: "int \<times> int"

text \<open>The maximum the package uses: \<open>options.max\<close>; every limiter the repository
  configures sets it. When the option is absent the package falls back to its documented
  default, 5.\<close>

definition configuredMax :: "options \<Rightarrow> int" where
  "configuredMax opts = (case max_opt opts of None \<Rightarrow> 5 | Some m \<Rightarrow> m)"

definition analyticsLimiter ::
  "options \<Rightarrow> request \<Rightarrow> clocks \<Rightarrow> analyticsStore \<times> counters \<Rightarrow>
   response decision \<times> (analyticsStore \<times> counters)" where
  "analyticsLimiter opts req clk =
     rateLimit (windowMs opts) (analytics_skip req (c_skip clk)) (configuredMax opts)
       (analytics_handler opts req (c_handler clk)) (c_now clk) (ip req)"

text \<open>A sequence of requests through one limiter, with all decisions in order.\<close>

fun analyticsLimiterRun ::
  "options \<Rightarrow> (request \<times> clocks) list \<Rightarrow> analyticsStore \<times> counters \<Rightarrow>
   response decision list \<times> (analyticsStore \<times> counters)" where
  "analyticsLimiterRun opts [] st = ([], st)"
| "analyticsLimiterRun opts ((req, clk) # rest) st =
     (case analyticsLimiter opts req clk st of (d, st1) \<Rightarrow>
        (case analyticsLimiterRun opts rest st1 of (ds, st2) \<Rightarrow> (d # ds, st2)))"

text \<open>The five configured limiters of \<open>rateLimitAnalytics.js\<close>.\<close>

definition limiters_auth :: options where
  "limiters_auth = \<lparr>windowMs = 15 * 60 * 1000, max_opt = Some 5,
     message_opt = Some ''Too many authentication attempts. Please try again later.''\<rparr>"

definition limiters_register :: options where
  "limiters_register = \<lparr>windowMs = 60 * 60 * 1000, max_opt = Some 3,
     message_opt = Some ''Too many registration attempts. Please try again later.''\<rparr>"

definition limiters_api :: options where
  "limiters_api = \<lparr>windowMs = 15 * 60 * 1000, max_opt = Some 100,
     message_opt = Some ''Too many API requests. Please try again later.''\<rparr>"

definition limiters_public :: options where
  "limiters_public = \<lparr>windowMs = 15 * 60 * 1000, max_opt = Some 200,
     message_opt = Some ''Too many requests. Please try again later.''\<rparr>"

definition limiters_admin :: options where
  "limiters_admin = \<lparr>windowMs = 15 * 60 * 1000, max_opt = Some 50,
     message_opt = Some ''Too many admin requests. Please try again later.''\<rparr>"

text \<open>The retry-after the specification words: the seconds that remain until the
  window that started at \<open>start\<close> resets.\<close>

definition spec_retryAfter :: "int \<Rightarrow> int \<Rightarrow> int \<Rightarrow> int" where
  "spec_retryAfter start window now = \<lceil>real_of_int (start + window - now) / 1000\<rceil>"

section \<open>Stability limiter\<close>

text \<open>\<open>createStabilityRateLimit(options)\<close>: the callbacks \<open>message\<close> and \<open>skip\<close>
  (\<open>max\<close> is \<open>stability_max\<close> above). The package answers a request over the maximum
  with status 429 and the message.\<close>

definition stability_message :: "options \<Rightarrow> bool \<Rightarrow> body" where
  "stability_message opts underPressure =
     StabilityBody False (messageOrDefault (message_opt opts)) (ceilSeconds (windowMs opts))
       (if underPressure then ''under_pressure'' else ''healthy'')"

definition stability_skip :: "request \<Rightarrow> bool" where
  "stability_skip req = (path req = ''/health'' \<or> path req = ''/api/health'')"

definition stabilityLimiter ::
  "options \<Rightarrow> bool \<Rightarrow> request \<Rightarrow> int \<Rightarrow> counters \<Rightarrow> response decision \<times> counters" where
  "stabilityLimiter opts underPressure req now cs =
     (case rateLimit (windowMs opts) (\<lambda>w. (stability_skip req, w))
             (stability_max (max_opt opts) underPressure req)
             (\<lambda>w. (\<lparr>status = 429, json = stability_message opts underPressure\<rparr>, w))
             now (ip req) ((), cs)
      of (d, (w, cs1)) \<Rightarrow> (d, cs1))"

text \<open>The four configured limiters of \<open>stabilityMiddleware.js\<close>.\<close>

definition rateLimiters_auth :: options where
  "rateLimiters_auth = \<lparr>windowMs = 15 * 60 * 1000, max_opt = Some 15,
     message_opt = Some ''Too many authentication attempts. Please try again later.''\<rparr>"

definition rateLimiters_admin :: options where
  "rateLimiters_admin = \<lparr>windowMs = 15 * 60 * 1000, max_opt = Some 200,
     message_opt = Some ''Admin rate limit exceeded. Please wait a moment.''\<rparr>"

definition rateLimiters_api :: options where
  "rateLimiters_api = \<lparr>windowMs = 15 * 60 * 1000, max_opt = Some 150,
     message_opt = Some ''Too many requests. Please try again later.''\<rparr>"

definition rateLimiters_public :: options where
  "rateLimiters_public = \<lparr>windowMs = 15 * 60 * 1000, max_opt = Some 250,
     message_opt = Some ''Rate limit exceeded. Please try again shortly.''\<rparr>"

text \<open>A sequence of requests through one stability limiter; each request comes with the
  memory monitor's flag and the clock reading at its arrival.\<close>

fun stabilityLimiterRun ::
  "options \<Rightarrow> (bool \<times> request \<times> int) list \<Rightarrow> counters \<Rightarrow>
   response decision list \<times> counters" where
  "stabilityLimiterRun opts [] cs = ([], cs)"
| "stabilityLimiterRun opts ((underPressure, req, now) # rest) cs =
     (case stabilityLimiter opts underPressure req now cs of (d, cs1) \<Rightarrow>
        (case stabilityLimiterRun opts rest cs1 of (ds, cs2) \<Rightarrow> (d # ds, cs2)))"

section \<open>Smart limiter\<close>

text \<open>
  \<open>createSmartLimiter(options)\<close>, callback \<open>skip\<close>. \<open>jwt.verify\<close> belongs to the
  package jsonwebtoken: it returns the decoded payload or throws, so it is a parameter
  \<open>verify\<close> with \<open>None\<close> for a throw. Of the payload only \<open>role\<close> is read. The body
  of the \<open>try\<close> block either returns or throws; the \<open>catch\<close> turns a throw into
  \<open>false\<close>.
\<close>

record jwtPayload =
  role :: "string option"

datatype 'a attempt = Returned 'a | Thrown

definition smart_skip_try :: "(string \<Rightarrow> jwtPayload option) \<Rightarrow> request \<Rightarrow> bool attempt" where
  "smart_skip_try verify req =
     (case authorization req of
        None \<Rightarrow> Returned False
      | Some authHeader \<Rightarrow>
          if authHeader = [] \<or> \<not> startsWith authHeader ''Bearer '' then Returned False
          else (let token = drop 7 authHeader in
            if token = [] then Returned False
            else (case verify token of
                None \<Rightarrow> Thrown
              | Some decoded \<Rightarrow>
                  if role decoded = Some ''admin'' \<or> role decoded = Some ''moderator''
                  then Returned True
                  else Returned False)))"

definition smart_skip :: "(string \<Rightarrow> jwtPayload option) \<Rightarrow> request \<Rightarrow> bool" where
  "smart_skip verify req =
     (case smart_skip_try verify req of Returned b \<Rightarrow> b | Thrown \<Rightarrow> False)"

definition smart_message :: "options \<Rightarrow> body" where
  "smart_message opts =
     SmartBody False ''Too many requests. Please wait before trying again.''
       (ceilSeconds (windowMs opts))"

definition smartLimiter ::
  "(string \<Rightarrow> jwtPayload option) \<Rightarrow> options \<Rightarrow> request \<Rightarrow> int \<Rightarrow> counters \<Rightarrow>
   response decision \<times> counters" where
  "smartLimiter verify opts req now cs =
     (case rateLimit (windowMs opts) (\<lambda>w. (smart_skip verify req, w)) (configuredMax opts)
             (\<lambda>w. (\<lparr>status = 429, json = smart_message opts\<rparr>, w))
             now (ip req) ((), cs)
      of (d, (w, cs1)) \<Rightarrow> (d, cs1))"

fun smartLimiterRun ::
  "(string \<Rightarrow> jwtPayload option) \<Rightarrow> options \<Rightarrow> (request \<times> int) list \<Rightarrow> counters \<Rightarrow>
   response decision list \<times> counters" where
  "smartLimiterRun verify opts [] cs = ([], cs)"
| "smartLimiterRun verify opts ((req, now) # rest) cs =
     (case smartLimiter verify opts req now cs of (d, cs1) \<Rightarrow>
        (case smartLimiterRun verify opts rest cs1 of (ds, cs2) \<Rightarrow> (d # ds, cs2)))"


section \<open>Request queue\<close>

text \<open>
  Class \<open>RequestQueue\<close> and the state around it that its methods read and write.
  A response object is known by a handle (a number, fresh for every arriving request);
  \<open>i_res\<close> is the handle of the entry's \<open>res\<close>, and calling the entry's \<open>next\<close> is the
  effect \<open>Next\<close> of that handle. The entry's \<open>timeout\<close> is the timer the runtime keeps
  under the same handle.
\<close>

record requestItem =
  i_req :: request
  i_res :: nat
  isAdmin :: bool

record requestQueue =
  maxConcurrent :: int
  activeRequests :: int
  queue :: "requestItem list"
  isProcessing :: bool

text \<open>What the middleware does to the outside: \<open>next()\<close> for a request, or
  \<open>res.status(..).json(..)\<close>.\<close>

datatype effect = Next nat | Json nat response

text \<open>The two \<open>cleanup\<close> closures: the one \<open>middleware\<close> registers for a request it
  admits at once, and the one \<open>processQueue\<close> registers for a request it takes from the
  queue. Each is registered for the events \<open>finish\<close>, \<open>close\<close> and \<open>error\<close> alike.\<close>

datatype listener = DirectCleanup | QueuedCleanup

datatype resEvent = Finish | Close | Error

text \<open>
  The whole state: the queue object, \<open>memoryMonitor.isUnderPressure\<close>, the runtime's
  pending timers (entry and delay in milliseconds, by handle), the listeners registered on
  each response, the number of pending \<open>setImmediate\<close> callbacks, the effects so far, and
  the next fresh handle.
\<close>

record system =
  rq :: requestQueue
  isUnderPressure :: bool
  timers :: "nat \<Rightarrow> (requestItem \<times> nat) option"
  listeners :: "nat \<Rightarrow> listener list"
  immediates :: nat
  effects :: "effect list"
  nextRes :: nat

definition busyResponse :: response where
  "busyResponse = \<lparr>status = 503,
     json = BusyBody False ''Server is busy. Please try again later.'' ''SERVER_BUSY''\<rparr>"

text \<open>\<open>processQueue()\<close>\<close>

definition processQueue :: "system \<Rightarrow> system" where
  "processQueue s =
     (let q = rq s in
      if isProcessing q \<or> length (queue q) = 0 then s
      else if maxConcurrent q \<le> activeRequests q \<or> isUnderPressure s then s
      else (case queue q of
          [] \<Rightarrow> s
        | requestItem # rest \<Rightarrow>
            s\<lparr>rq := q\<lparr>isProcessing := True, queue := rest,
                      activeRequests := activeRequests q + 1\<rparr>,
              timers := (timers s)(i_res requestItem := None),
              listeners := (listeners s)
                (i_res requestItem := listeners s (i_res requestItem) @ [QueuedCleanup]),
              effects := effects s @ [Next (i_res requestItem)]\<rparr>))"

text \<open>The closure \<open>cleanup\<close> of \<open>middleware\<close>: \<open>activeRequests--; processQueue()\<close>.\<close>

definition cleanupDirect :: "system \<Rightarrow> system" where
  "cleanupDirect s = processQueue (s\<lparr>rq := (rq s)\<lparr>activeRequests := activeRequests (rq s) - 1\<rparr>\<rparr>)"

text \<open>The closure \<open>cleanup\<close> of \<open>processQueue\<close>:
  \<open>activeRequests--; isProcessing = false; setImmediate(() => processQueue())\<close>.\<close>

definition cleanupQueued :: "system \<Rightarrow> system" where
  "cleanupQueued s =
     s\<lparr>rq := (rq s)\<lparr>activeRequests := activeRequests (rq s) - 1, isProcessing := False\<rparr>,
       immediates := immediates s + 1\<rparr>"

fun runListener :: "system \<Rightarrow> listener \<Rightarrow> system" where
  "runListener s DirectCleanup = cleanupDirect s"
| "runListener s QueuedCleanup = cleanupQueued s"

text \<open>A response emits one of its events: the listeners registered on it run in order.\<close>

definition emit :: "nat \<Rightarrow> system \<Rightarrow> system" where
  "emit r s = foldl runListener s (listeners s r)"

text \<open>The callback of the queue timeout, for the entry it closes over:
  \<open>indexOf\<close> and \<open>splice\<close> remove the entry's first occurrence.\<close>

definition timeoutCallback :: "requestItem \<Rightarrow> system \<Rightarrow> system" where
  "timeoutCallback requestItem s =
     (if requestItem \<in> set (queue (rq s))
      then s\<lparr>rq := (rq s)\<lparr>queue := remove1 requestItem (queue (rq s))\<rparr>,
             effects := effects s @ [Json (i_res requestItem) busyResponse]\<rparr>
      else s)"

text \<open>The paths \<open>middleware\<close> lets through without queueing: health checks and
  logout.\<close>

definition bypassesQueue :: "request \<Rightarrow> bool" where
  "bypassesQueue req \<longleftrightarrow>
     path req = ''/health'' \<or> path req = ''/api/health'' \<or>
     str_includes (path req) ''/auth/logout''"

text \<open>\<open>middleware()\<close>, for a request \<open>req\<close> whose response has the handle \<open>r\<close>.\<close>

definition middleware :: "request \<Rightarrow> nat \<Rightarrow> system \<Rightarrow> system" where
  "middleware req r s =
     (if bypassesQueue req
      then s\<lparr>effects := effects s @ [Next r]\<rparr>
      else if activeRequests (rq s) < maxConcurrent (rq s) \<and> \<not> isUnderPressure s
      then s\<lparr>rq := (rq s)\<lparr>activeRequests := activeRequests (rq s) + 1\<rparr>,
             listeners := (listeners s)(r := listeners s r @ [DirectCleanup]),
             effects := effects s @ [Next r]\<rparr>
      else (let isAdminRequest = isAdminPath req;
                requestItem = \<lparr>i_req = req, i_res = r, isAdmin = isAdminRequest\<rparr>;
                queue1 = (if isAdminRequest then requestItem # queue (rq s)
                          else queue (rq s) @ [requestItem])
            in processQueue (s\<lparr>rq := (rq s)\<lparr>queue := queue1\<rparr>,
                               timers := (timers s)(r \<mapsto> (requestItem, 10000))\<rparr>)))"

text \<open>
  What can happen to the system: a request arrives (and gets a fresh handle), a response
  emits an event, the timer under a handle fires, a pending \<open>setImmediate\<close> callback
  runs, or the memory monitor samples the heap and sets its flag.
\<close>

datatype event =
    Arrive request
  | ResEmits nat resEvent
  | TimerFires nat
  | RunImmediate
  | MemorySample bool

fun step :: "system \<Rightarrow> event \<Rightarrow> system" where
  "step s (Arrive req) = middleware req (nextRes s) (s\<lparr>nextRes := nextRes s + 1\<rparr>)"
| "step s (ResEmits r ev) = emit r s"
| "step s (TimerFires r) =
     (case timers s r of
        None \<Rightarrow> s
      | Some (requestItem, delay) \<Rightarrow> timeoutCallback requestItem (s\<lparr>timers := (timers s)(r := None)\<rparr>))"
| "step s RunImmediate =
     (if immediates s = 0 then s else processQueue (s\<lparr>immediates := immediates s - 1\<rparr>))"
| "step s (MemorySample b) = s\<lparr>isUnderPressure := b\<rparr>"

definition run :: "system \<Rightarrow> event list \<Rightarrow> system" where
  "run s evs = foldl step s evs"

text \<open>\<open>new RequestQueue(maxConcurrent)\<close> beside a fresh memory monitor, and the
  instance the module exports: \<open>new RequestQueue(30)\<close>.\<close>

definition newSystem :: "int \<Rightarrow> system" where
  "newSystem m =
     \<lparr>rq = \<lparr>maxConcurrent = m, activeRequests = 0, queue = [], isProcessing = False\<rparr>,
      isUnderPressure = False, timers = (\<lambda>r. None), listeners = (\<lambda>r. []), immediates = 0,
      effects = [], nextRes = 0\<rparr>"

definition requestQueue :: system where
  "requestQueue = newSystem 30"


section \<open>Consistency of the store's aggregates\<close>

text \<open>In each aggregate the blocked count is at most the total count: the real-time
  counters, every endpoint's statistics and every hourly bucket of a store; the summary,
  the endpoint statistics, the hourly series and the real-time counters of a snapshot; the
  counts of a per-IP report.\<close>

definition storeConsistent :: "analyticsStore \<Rightarrow> bool" where
  "storeConsistent a \<longleftrightarrow>
     rt_blockedRequests (realTimeStats a) \<le> currentRequests (realTimeStats a) \<and>
     list_all (\<lambda>(endpoint, stats). e_blocked stats \<le> e_total stats) (endpoints a) \<and>
     list_all (\<lambda>stat. h_blocked stat \<le> h_requests stat) (hourlyStats a)"

definition snapshotConsistent :: "analyticsSnapshot \<Rightarrow> bool" where
  "snapshotConsistent sn \<longleftrightarrow>
     blockedRequests (snap_summary sn) \<le> totalRequests (snap_summary sn) \<and>
     list_all (\<lambda>(endpoint, stats). e_blocked stats \<le> e_total stats) (snap_endpointStats sn) \<and>
     list_all (\<lambda>stat. h_blocked stat \<le> h_requests stat) (snap_hourlyStats sn) \<and>
     rt_blockedRequests (snap_realTimeStats sn) \<le> currentRequests (snap_realTimeStats sn)"

definition ipConsistent :: "ipAnalytics \<Rightarrow> bool" where
  "ipConsistent r \<longleftrightarrow> ia_blockedRequests r \<le> ia_totalRequests r"



text \<open>The total of one endpoint's statistics (0 for an endpoint never seen).\<close>

definition endpointTotal :: "analyticsStore \<Rightarrow> string \<Rightarrow> nat" where
  "endpointTotal a endpoint =
     (case map_of (endpoints a) endpoint of None \<Rightarrow> 0 | Some stats \<Rightarrow> e_total stats)"

section \<open>Order and bookkeeping of the queue\<close>

text \<open>
  The order the queue keeps between an entry \<open>x\<close> and an entry \<open>y\<close> behind it. Handles
  grow with arrival, so a smaller handle is an earlier arrival. Behind an admin entry,
  an admin entry is one that arrived earlier; behind a normal entry there are only normal
  entries that arrived later.
\<close>

definition queueOrder :: "requestItem \<Rightarrow> requestItem \<Rightarrow> bool" where
  "queueOrder x y =
     (if isAdmin x then (if isAdmin y then i_res y < i_res x else True)
      else (\<not> isAdmin y \<and> i_res x < i_res y))"

text \<open>The order the specification words: admin entries first, and entries of equal
  priority in the order of their arrival.\<close>

definition spec_queueOrder :: "requestItem \<Rightarrow> requestItem \<Rightarrow> bool" where
  "spec_queueOrder x y =
     (if isAdmin x = isAdmin y then i_res x < i_res y else isAdmin x)"

text \<open>
  What holds of the queue in every state the system reaches: the handles of the entries
  are distinct and already given out; every entry has its timer pending, with a delay of
  10000 ms; no entry has been passed on; only handles given out have been passed on; a
  pending timer is kept under the handle of its entry; and the entries are in the order
  above.
\<close>

definition queueInv :: "system \<Rightarrow> bool" where
  "queueInv s \<longleftrightarrow>
     distinct (map i_res (queue (rq s))) \<and>
     (\<forall>x \<in> set (queue (rq s)). i_res x < nextRes s \<and>
        timers s (i_res x) = Some (x, 10000) \<and> Next (i_res x) \<notin> set (effects s)) \<and>
     (\<forall>r. Next r \<in> set (effects s) \<longrightarrow> r < nextRes s) \<and>
     (\<forall>r x d. timers s r = Some (x, d) \<longrightarrow> i_res x = r) \<and>
     sorted_wrt queueOrder (queue (rq s))"

text \<open>A request that is out of the queue for good: its handle was given out, no entry
  of the queue carries it, and it has not been passed on.\<close>

definition gone :: "nat \<Rightarrow> system \<Rightarrow> bool" where
  "gone r s \<longleftrightarrow>
     r < nextRes s \<and> r \<notin> i_res ` set (queue (rq s)) \<and> Next r \<notin> set (effects s)"


section \<open>Concrete inputs for the examples\<close>

definition adminReq :: request where
  "adminReq = \<lparr>ip = ''10.0.0.1'', path = ''/api/admin/users'',
     originalUrl = ''/api/admin/users'', httpMethod = ''GET'', userAgent = None,
     authorization = None\<rparr>"

definition exampleOps :: "storeOp list" where
  "exampleOps =
     [LogRequest ''1.2.3.4'' ''/api/auth/login'' False ''curl'' ''POST'' 1000 1000,
      LogRequest ''1.2.3.4'' ''/api/auth/login'' True ''curl'' ''POST'' 1001 1001,
      UpdateHourlyStats 60000,
      LogRequest ''5.6.7.8'' ''/api/projects'' False [] ''GET'' 61000 61001,
      CleanupOldData 3600000]"

text \<open>\<open>n\<close> requests of one client, one per millisecond from millisecond 1 on.\<close>

definition burst :: "nat \<Rightarrow> storeOp list" where
  "burst n = map (\<lambda>i. LogRequest ''1.2.3.4'' ''/api/projects'' False [] ''GET'' (int i) (int i))
     [1 ..< Suc n]"


definition login1 :: storeOp where
  "login1 = LogRequest ''1.2.3.4'' ''/api/auth/login'' False ''curl'' ''POST''
     1700000000000 1700000000000"

definition login2 :: storeOp where
  "login2 = LogRequest ''1.2.3.4'' ''/api/auth/login'' True ''curl'' ''POST''
     1700000000000 1700000000000"


definition loginReq :: request where
  "loginReq = \<lparr>ip = ''1.2.3.4'', path = ''/api/auth/login'',
     originalUrl = ''/api/auth/login'', httpMethod = ''POST'', userAgent = Some ''curl'',
     authorization = None\<rparr>"

text \<open>All clock readings of one request fall into the same millisecond \<open>t\<close>.\<close>

definition clockAt :: "int \<Rightarrow> clocks" where
  "clockAt t = \<lparr>c_now = t, c_skip = (t, t), c_handler = (t, t)\<rparr>"

text \<open>Six login attempts of one client: five in the first seconds of a window and one
  ten minutes into it.\<close>

definition sixLogins :: "(request \<times> clocks) list" where
  "sixLogins = map (\<lambda>t. (loginReq, clockAt t)) [0, 1000, 2000, 3000, 4000, 600000]"

text \<open>Eight login attempts of one client while the memory is under pressure: seven in
  the first seconds of a window and one ten minutes into it.\<close>

definition eightLogins :: "(bool \<times> request \<times> int) list" where
  "eightLogins = map (\<lambda>t. (True, loginReq, t)) [0, 1000, 2000, 3000, 4000, 5000, 6000, 600000]"

definition noCounters :: counters where
  "noCounters = (\<lambda>key. None)"


text \<open>A stand-in for \<open>jwt.verify\<close> with the server's secret: two tokens verify, every
  other token is refused.\<close>

definition verifyDemo :: "string \<Rightarrow> jwtPayload option" where
  "verifyDemo token =
     (if token = ''admin-token'' then Some \<lparr>role = Some ''admin''\<rparr>
      else if token = ''user-token'' then Some \<lparr>role = Some ''user''\<rparr>
      else None)"

definition adminTokenReq :: request where
  "adminTokenReq = \<lparr>ip = ''10.0.0.1'', path = ''/api/projects'',
     originalUrl = ''/api/projects'', httpMethod = ''GET'', userAgent = None,
     authorization = Some ''Bearer admin-token''\<rparr>"

definition expiredTokenReq :: request where
  "expiredTokenReq = \<lparr>ip = ''10.0.0.2'', path = ''/api/projects'',
     originalUrl = ''/api/projects'', httpMethod = ''GET'', userAgent = None,
     authorization = Some ''Bearer expired-token''\<rparr>"

definition smart_api :: options where
  "smart_api = \<lparr>windowMs = 15 * 60 * 1000, max_opt = Some 300, message_opt = None\<rparr>"

definition healthReq :: request where
  "healthReq = \<lparr>ip = ''1.2.3.4'', path = ''/api/health'', originalUrl = ''/api/health'',
     httpMethod = ''GET'', userAgent = None, authorization = None\<rparr>"

definition logoutReq :: request where
  "logoutReq = \<lparr>ip = ''1.2.3.4'', path = ''/api/auth/logout'',
     originalUrl = ''/api/auth/logout'', httpMethod = ''POST'', userAgent = None,
     authorization = None\<rparr>"

text \<open>The counters after one client has used up the 15 requests of the \<open>auth\<close> class.\<close>

definition usedUp :: counters where
  "usedUp = noCounters(''1.2.3.4'' \<mapsto> \<lparr>windowStart = 0, hits = 15\<rparr>)"

text \<open>The counters after one client has used up the 150 requests of the \<open>api\<close> class.\<close>

definition apiUsedUp :: counters where
  "apiUsedUp = noCounters(''1.2.3.4'' \<mapsto> \<lparr>windowStart = 0, hits = 150\<rparr>)"


definition projectsReq :: request where
  "projectsReq = \<lparr>ip = ''1.2.3.4'', path = ''/api/projects'', originalUrl = ''/api/projects'',
     httpMethod = ''GET'', userAgent = None, authorization = None\<rparr>"

definition analyticsReq :: request where
  "analyticsReq = \<lparr>ip = ''10.0.0.1'', path = ''/api/analytics/summary'',
     originalUrl = ''/api/analytics/summary'', httpMethod = ''GET'', userAgent = None,
     authorization = None\<rparr>"

text \<open>
  One request is being handled (handle 0) when the memory monitor reports pressure; two
  admin requests arrive (handles 1 and 2) and then a normal one (handle 3); the pressure
  ends and the first request finishes.
\<close>

definition pressureTrace :: "event list" where
  "pressureTrace =
     [Arrive projectsReq, MemorySample True, Arrive adminReq, Arrive analyticsReq,
      Arrive projectsReq, MemorySample False, ResEmits 0 Finish]"


text \<open>The entry of the first admin request of \<open>pressureTrace\<close>, and the state before the
  pressure ends: the three later requests wait in the queue.\<close>

definition adminItem :: requestItem where
  "adminItem = \<lparr>i_req = adminReq, i_res = 1, isAdmin = True\<rparr>"

definition waiting :: system where
  "waiting = run (newSystem 30) (take 5 pressureTrace)"

text \<open>Three requests to the exported queue, one after the other, each answered normally:
  the response of each emits \<open>finish\<close> and then \<open>close\<close>, as the response of a
  request served to its end does.\<close>

definition threeRequests :: "event list" where
  "threeRequests =
     [Arrive projectsReq, ResEmits 0 Finish, ResEmits 0 Close,
      Arrive projectsReq, ResEmits 1 Finish, ResEmits 1 Close,
      Arrive projectsReq, ResEmits 2 Finish, ResEmits 2 Close]"


section \<open>Properties of the dynamic maximum\<close>

lemma floor_half: "\<lfloor>real_of_int m / 2\<rfloor> = m div 2"
  using floor_divide_of_int_eq[of m 2, where ?'a = real] by simp

lemma stability_max_code:
  "stability_max optMax p req =
     (let h = (if p then baseMax optMax div 2 else baseMax optMax)
      in if isAdminPath req then max (4 * h) 200 else h)"
  by (simp add: stability_max_def floor_half Let_def mult.commute)

text \<open>
  Claim C1, as stated: the effective maximum is the base limit times 0.5 under memory
  pressure, then on an admin or analytics path quadrupled with a floor of 200.
  The code rounds the halved limit down (\<open>Math.floor\<close>), so for an odd base limit it
  differs from the stated product: base 151 under pressure on an admin path gives
  \<open>4 * 75 = 300\<close>, where the stated formula gives \<open>4 * 75.5 = 302\<close>; the configured
  limit 15 of the \<open>auth\<close> class gives 7 under pressure, not 7.5.
\<close>

theorem stability_max_counterexample:
  "real_of_int (stability_max (Some 151) True adminReq) \<noteq> spec_effectiveMax 151 True True
   \<and> stability_max (Some 151) True adminReq = 300
   \<and> spec_effectiveMax 151 True True = 302
   \<and> stability_max (max_opt rateLimiters_auth) True loginReq = 7
   \<and> spec_effectiveMax 15 True False = 15 / 2"
  by (simp add: stability_max_def baseMax_def isAdminPath_def adminReq_def
      spec_effectiveMax_def floor_half rateLimiters_auth_def loginReq_def)

text \<open>
  Claim C1, amended: the effective maximum starts from the base limit (100 when the option
  is absent or 0), is halved and rounded down to an integer under memory pressure, and on
  an admin or analytics path is then replaced by the larger of four times that value and
  200. Whenever the base limit is even or there is no pressure this is exactly the stated
  formula; with pressure and base limit 1000 the admin-path limit is 2000.
\<close>

theorem stability_max_formula:
  "stability_max optMax p req =
     (let h = (if p then baseMax optMax div 2 else baseMax optMax)
      in if isAdminPath req then max (4 * h) 200 else h)
   \<and> (even (baseMax optMax) \<or> \<not> p \<longrightarrow>
        real_of_int (stability_max optMax p req) =
          spec_effectiveMax (baseMax optMax) p (isAdminPath req))
   \<and> (optMax = Some 1000 \<and> p \<and> isAdminPath req \<longrightarrow> stability_max optMax p req = 2000)"
proof -
  note code = stability_max_code [of optMax p req]
  have spec: "real_of_int (stability_max optMax p req) =
      spec_effectiveMax (baseMax optMax) p (isAdminPath req)"
    if "even (baseMax optMax) \<or> \<not> p"
  proof (cases p)
    case False
    then have "stability_max optMax p req =
        (if isAdminPath req then max (4 * baseMax optMax) 200 else baseMax optMax)"
      using code by (simp add: Let_def)
    moreover have "spec_effectiveMax (baseMax optMax) p (isAdminPath req) =
        (if isAdminPath req then max (4 * real_of_int (baseMax optMax)) 200
         else real_of_int (baseMax optMax))"
      using False by (simp add: spec_effectiveMax_def Let_def)
    ultimately show ?thesis by (simp add: max_def)
  next
    case True
    with that obtain k where k: "baseMax optMax = 2 * k" by (auto elim: evenE)
    from True k have "stability_max optMax p req =
        (if isAdminPath req then max (4 * k) 200 else k)"
      using code by (simp add: Let_def)
    moreover have "spec_effectiveMax (baseMax optMax) p (isAdminPath req) =
        (if isAdminPath req then max (4 * real_of_int k) 200 else real_of_int k)"
      using True by (simp add: spec_effectiveMax_def Let_def k)
    ultimately show ?thesis by (simp add: max_def)
  qed
  have part: "stability_max optMax p req = 2000"
    if "optMax = Some 1000 \<and> p \<and> isAdminPath req"
    using that code by (simp add: baseMax_def Let_def)
  show ?thesis using code spec part by blast
qed

theorem stability_max_formula_witness:
  "isAdminPath adminReq \<and> even (baseMax (Some 1000))
   \<and> stability_max (Some 1000) True adminReq = 2000
   \<and> real_of_int (stability_max (Some 1000) True adminReq) = spec_effectiveMax 1000 True True"
  using stability_max_formula [of "Some 1000" True adminReq]
  by (simp add: isAdminPath_def adminReq_def baseMax_def)

section \<open>Properties of the analytics store\<close>

subsection \<open>Blocked counts never exceed total counts\<close>

lemma list_all_update:
  "list_all P xs \<Longrightarrow> P (k, v) \<Longrightarrow> list_all P (AList.update k v xs)"
  by (induction xs) auto

lemma list_all_take_sortDesc:
  "list_all P xs \<Longrightarrow> list_all P (take n (sortDesc f xs))"
  by (auto simp: list_all_iff sortDesc_def dest: in_set_takeD)

lemma logRequest_consistent:
  assumes "storeConsistent a"
  shows "storeConsistent (logRequest addr endpoint blocked ua meth ts now a)"
proof -
  let ?P = "\<lambda>(endpoint, stats). e_blocked stats \<le> e_total stats"
  have eps: "list_all ?P (endpoints a)" using assms by (simp add: storeConsistent_def)
  let ?e1 = "case map_of (endpoints a) endpoint of
               None \<Rightarrow> AList.update endpoint
                  \<lparr>e_total = 0, e_blocked = 0, e_lastAccess = ts\<rparr> (endpoints a)
             | Some _ \<Rightarrow> endpoints a"
  have e1: "list_all ?P ?e1"
    using eps by (auto split: option.splits intro: list_all_update)
  have e1_mem: "?P (endpoint, st)" if "map_of ?e1 endpoint = Some st" for st
    using e1 map_of_SomeD[OF that] by (auto simp: list_all_iff)
  let ?e2 = "case map_of ?e1 endpoint of
               None \<Rightarrow> ?e1
             | Some endpointStats \<Rightarrow> AList.update endpoint
                 \<lparr>e_total = e_total endpointStats + 1,
                  e_blocked = (if blocked then e_blocked endpointStats + 1
                               else e_blocked endpointStats),
                  e_lastAccess = ts\<rparr> ?e1"
  have e2: "list_all ?P ?e2"
  proof (cases "map_of ?e1 endpoint")
    case None
    then show ?thesis using e1 by simp
  next
    case (Some st)
    from e1_mem[OF Some] have "e_blocked st \<le> e_total st" by simp
    then show ?thesis using Some e1 by (auto intro!: list_all_update)
  qed
  have rt: "rt_blockedRequests (realTimeStats a) \<le> currentRequests (realTimeStats a)"
    using assms by (simp add: storeConsistent_def)
  have hs: "list_all (\<lambda>stat. h_blocked stat \<le> h_requests stat) (hourlyStats a)"
    using assms by (simp add: storeConsistent_def)
  show ?thesis
    unfolding storeConsistent_def logRequest_def Let_def
    using e2 rt hs by simp
qed

lemma updateHourlyStats_consistent:
  "storeConsistent a \<Longrightarrow> storeConsistent (updateHourlyStats now a)"
  by (auto simp: storeConsistent_def updateHourlyStats_def Let_def list_all_iff)

lemma cleanupOldData_consistent:
  "storeConsistent a \<Longrightarrow> storeConsistent (cleanupOldData now a)"
  by (simp add: storeConsistent_def cleanupOldData_def)

lemma applyOp_consistent: "storeConsistent a \<Longrightarrow> storeConsistent (applyOp a op)"
  by (cases op)
    (simp_all add: logRequest_consistent updateHourlyStats_consistent cleanupOldData_consistent)

lemma foldl_applyOp_consistent:
  "storeConsistent a \<Longrightarrow> storeConsistent (foldl applyOp a ops)"
  by (induction ops arbitrary: a) (simp_all add: applyOp_consistent)

lemma emptyStore_consistent: "storeConsistent emptyStore"
  by (simp add: storeConsistent_def emptyStore_def)

lemma runOps_consistent: "storeConsistent (runOps ops)"
  unfolding runOps_def by (rule foldl_applyOp_consistent[OF emptyStore_consistent])

lemma getAnalytics_consistent:
  "storeConsistent a \<Longrightarrow> snapshotConsistent (getAnalytics now a)"
  by (simp add: storeConsistent_def snapshotConsistent_def getAnalytics_def Let_def
      list_all_take_sortDesc del: length_take)

lemma getIPAnalytics_consistent: "ipConsistent (getIPAnalytics addr a)"
  by (simp add: ipConsistent_def getIPAnalytics_def Let_def)

text \<open>
  Claim C8: in every state the store reaches from its constructor by \<open>logRequest\<close>,
  \<open>updateHourlyStats\<close> and \<open>cleanupOldData\<close>, and in every aggregate it produces (the
  real-time counters, the per-endpoint statistics, the hourly buckets, the summary of
  \<open>getAnalytics\<close> and the per-IP report of \<open>getIPAnalytics\<close>), the blocked count is at
  most the total count; every operation of the store preserves this.
\<close>

theorem blocked_le_total:
  "(storeConsistent a \<longrightarrow> storeConsistent (applyOp a op)) \<and>
   storeConsistent (runOps ops) \<and>
   snapshotConsistent (getAnalytics now (runOps ops)) \<and>
   ipConsistent (getIPAnalytics addr (runOps ops))"
  using applyOp_consistent runOps_consistent getAnalytics_consistent getIPAnalytics_consistent
  by blast

theorem blocked_le_total_witness:
  "storeConsistent (runOps (take 3 exampleOps)) \<and>
   storeConsistent (applyOp (runOps (take 3 exampleOps)) (exampleOps ! 3)) \<and>
   storeConsistent (runOps exampleOps) \<and>
   snapshotConsistent (getAnalytics 3600000 (runOps exampleOps)) \<and>
   ipConsistent (getIPAnalytics ''1.2.3.4'' (runOps exampleOps)) \<and>
   blockedRequests (snap_summary (getAnalytics 3600000 (runOps exampleOps))) = 1 \<and>
   totalRequests (snap_summary (getAnalytics 3600000 (runOps exampleOps))) = 3"
proof -
  have "blockedRequests (snap_summary (getAnalytics 3600000 (runOps exampleOps))) = 1"
    and "totalRequests (snap_summary (getAnalytics 3600000 (runOps exampleOps))) = 3"
    by code_simp+
  then show ?thesis
    using blocked_le_total [of "runOps (take 3 exampleOps)" "exampleOps ! 3" exampleOps
        3600000 "''1.2.3.4''"]
      blocked_le_total [of "runOps (take 3 exampleOps)" "exampleOps ! 3" "take 3 exampleOps"
        3600000 "''1.2.3.4''"]
    by blast
qed

subsection \<open>Two requests of one client in one millisecond\<close>

lemma requests_logRequest:
  "requests (logRequest addr endpoint blocked ua meth ts now a) =
     AList.update (addr @ ''-'' @ show_int now)
       \<lparr>r_ip = addr, r_endpoint = endpoint, r_blocked = blocked, r_userAgent = ua,
        r_method = meth, r_timestamp = ts\<rparr> (requests a)"
  by (simp add: logRequest_def Let_def)

lemma currentRequests_logRequest:
  "currentRequests (realTimeStats (logRequest addr endpoint blocked ua meth ts now a)) =
     currentRequests (realTimeStats a) + 1"
  by (simp add: logRequest_def Let_def)

lemma endpointTotal_logRequest:
  "endpointTotal (logRequest addr endpoint blocked ua meth ts now a) e =
     endpointTotal a e + (if e = endpoint then 1 else 0)"
  by (simp add: logRequest_def Let_def endpointTotal_def update_conv' split: option.splits)

lemma keys_update_present:
  "k \<in> fst ` set xs \<Longrightarrow> map fst (AList.update k v xs) = map fst xs"
  by (simp add: update_keys)

lemma count_update_le:
  "length (filter P (map snd (AList.update k v xs))) \<le> Suc (length (filter P (map snd xs)))"
  by (induction xs) auto

lemma ia_totalRequests_eq:
  "ia_totalRequests (getIPAnalytics addr a) =
     length (filter (\<lambda>r. r_ip r = addr) (map snd (requests a)))"
  by (simp add: getIPAnalytics_def Let_def sortDesc_def)

text \<open>
  Claim C10: when \<open>logRequest\<close> runs twice for one client IP with the same reading of
  \<open>Date.now()\<close>, the second record replaces the first under the key made of the IP and
  the millisecond, and no record is added; the real-time counter and the endpoint's
  counter still count both calls. So the per-IP report counts at most one more request
  than before the two calls, strictly fewer than the calls made.
\<close>

theorem same_millisecond_overwrites:
  assumes a1_def: "a1 = logRequest addr e1 b1 ua1 m1 ts1 now a"
    and a2_def: "a2 = logRequest addr e2 b2 ua2 m2 ts2 now a1"
  shows "map_of (requests a2) (addr @ ''-'' @ show_int now) =
           Some \<lparr>r_ip = addr, r_endpoint = e2, r_blocked = b2, r_userAgent = ua2,
                 r_method = m2, r_timestamp = ts2\<rparr>
       \<and> map fst (requests a2) = map fst (requests a1)
       \<and> currentRequests (realTimeStats a2) = currentRequests (realTimeStats a) + 2
       \<and> endpointTotal a2 e2 = endpointTotal a e2 + (if e1 = e2 then 2 else 1)
       \<and> ia_totalRequests (getIPAnalytics addr a2) \<le> ia_totalRequests (getIPAnalytics addr a) + 1
       \<and> ia_totalRequests (getIPAnalytics addr a2) < ia_totalRequests (getIPAnalytics addr a) + 2"
proof -
  let ?k = "addr @ ''-'' @ show_int now"
  have "?k \<in> fst ` set (requests a1)"
    by (simp add: a1_def requests_logRequest dom_update)
  then have keys: "map fst (requests a2) = map fst (requests a1)"
    by (simp add: a2_def requests_logRequest keys_update_present)
  have look: "map_of (requests a2) ?k =
           Some \<lparr>r_ip = addr, r_endpoint = e2, r_blocked = b2, r_userAgent = ua2,
                 r_method = m2, r_timestamp = ts2\<rparr>"
    by (simp add: a2_def requests_logRequest update_conv')
  have cur: "currentRequests (realTimeStats a2) = currentRequests (realTimeStats a) + 2"
    by (simp add: a1_def a2_def currentRequests_logRequest)
  have ept: "endpointTotal a2 e2 = endpointTotal a e2 + (if e1 = e2 then 2 else 1)"
    by (simp add: a1_def a2_def endpointTotal_logRequest)
  have "requests a2 = AList.update ?k
       \<lparr>r_ip = addr, r_endpoint = e2, r_blocked = b2, r_userAgent = ua2,
        r_method = m2, r_timestamp = ts2\<rparr> (requests a)"
    by (simp add: a1_def a2_def requests_logRequest)
  then have le: "ia_totalRequests (getIPAnalytics addr a2)
      \<le> ia_totalRequests (getIPAnalytics addr a) + 1"
    using count_update_le by (simp add: ia_totalRequests_eq)
  from keys look cur ept le show ?thesis by simp
qed

theorem same_millisecond_overwrites_witness:
  "ia_totalRequests (getIPAnalytics ''1.2.3.4'' (runOps [login1, login2])) < 2
   \<and> ia_totalRequests (getIPAnalytics ''1.2.3.4'' (runOps [login1, login2])) = 1
   \<and> currentRequests (realTimeStats (runOps [login1, login2])) = 2
   \<and> endpointTotal (runOps [login1, login2]) ''/api/auth/login'' = 2
   \<and> map (r_blocked \<circ> snd) (requests (runOps [login1, login2])) = [True]"
proof -
  let ?a1 = "runOps [login1]" and ?a2 = "runOps [login1, login2]"
  have 1: "?a1 = logRequest ''1.2.3.4'' ''/api/auth/login'' False ''curl'' ''POST''
      1700000000000 1700000000000 emptyStore"
    by (simp add: runOps_def login1_def)
  have 2: "?a2 = logRequest ''1.2.3.4'' ''/api/auth/login'' True ''curl'' ''POST''
      1700000000000 1700000000000 ?a1"
    by (simp add: runOps_def login1_def login2_def)
  have e0: "ia_totalRequests (getIPAnalytics ''1.2.3.4'' emptyStore) = 0"
    "currentRequests (realTimeStats emptyStore) = 0"
    "endpointTotal emptyStore ''/api/auth/login'' = 0"
    by (simp_all add: getIPAnalytics_def emptyStore_def sortDesc_def endpointTotal_def)
  have ev: "ia_totalRequests (getIPAnalytics ''1.2.3.4'' ?a2) = 1"
    "map (r_blocked \<circ> snd) (requests ?a2) = [True]"
    by code_simp+
  show ?thesis
    using same_millisecond_overwrites [OF 1 2] e0 ev by simp
qed


subsection \<open>The summary of the last hour\<close>

lemma digits_nonempty: "digits n \<noteq> []"
  by (subst digits.simps) simp

lemma char_of_digit_inj:
  assumes "0 \<le> a" "a < 10" "0 \<le> b" "b < 10"
    and eq: "(char_of (48 + a :: int) :: char) = char_of (48 + b)"
  shows "a = b"
proof -
  from eq have "(of_char (char_of (48 + a) :: char) :: int) = of_char (char_of (48 + b) :: char)"
    by simp
  then have "(48 + a) mod 256 = (48 + b) mod 256" by simp
  with assms show "a = b" by simp
qed

text \<open>Different numbers have different decimal renderings.\<close>

lemma digits_inj: "0 \<le> n \<Longrightarrow> 0 \<le> m \<Longrightarrow> digits n = digits m \<Longrightarrow> n = m"
proof (induction n arbitrary: m rule: digits.induct)
  case (1 n)
  show ?case
  proof (cases "n < 10")
    case True
    then have dn: "digits n = [char_of (48 + n)]" by (subst digits.simps) simp
    show ?thesis
    proof (cases "m < 10")
      case mlt: True
      then have "digits m = [char_of (48 + m)]" by (subst digits.simps) simp
      with dn "1.prems" True mlt show ?thesis by (auto dest: char_of_digit_inj)
    next
      case False
      then have "digits m = digits (m div 10) @ [char_of (48 + m mod 10)]"
        by (subst digits.simps) simp
      with dn "1.prems"(3) digits_nonempty[of "m div 10"] show ?thesis
        by (cases "digits (m div 10)") auto
    qed
  next
    case False
    then have dn: "digits n = digits (n div 10) @ [char_of (48 + n mod 10)]"
      by (subst digits.simps) simp
    show ?thesis
    proof (cases "m < 10")
      case True
      then have "digits m = [char_of (48 + m)]" by (subst digits.simps) simp
      with dn "1.prems"(3) digits_nonempty[of "n div 10"] show ?thesis
        by (cases "digits (n div 10)") auto
    next
      case mge: False
      then have "digits m = digits (m div 10) @ [char_of (48 + m mod 10)]"
        by (subst digits.simps) simp
      with dn "1.prems"(3) have eq: "digits (n div 10) = digits (m div 10)"
        and ch: "(char_of (48 + n mod 10) :: char) = char_of (48 + m mod 10)" by auto
      have "n div 10 = m div 10"
        using "1.IH"[OF False _ _ eq] "1.prems" by simp
      moreover have "n mod 10 = m mod 10"
        using ch by (auto dest!: char_of_digit_inj[rotated -1])
      ultimately show ?thesis by (metis mult_div_mod_eq)
    qed
  qed
qed

lemma update_fresh: "k \<notin> fst ` set xs \<Longrightarrow> AList.update k v xs = xs @ [(k, v)]"
  by (induction xs) auto

lemma foldl_update_fresh:
  "distinct (map key js) \<Longrightarrow> \<forall>j \<in> set js. key j \<notin> fst ` set xs \<Longrightarrow>
   foldl (\<lambda>reqs j. AList.update (key j) (val j) reqs) xs js = xs @ map (\<lambda>j. (key j, val j)) js"
proof (induction js arbitrary: xs)
  case Nil
  then show ?case by simp
next
  case (Cons j js)
  then have fresh: "AList.update (key j) (val j) xs = xs @ [(key j, val j)]"
    by (simp add: update_fresh)
  have "\<forall>i \<in> set js. key i \<notin> fst ` set (xs @ [(key j, val j)])"
    using Cons.prems by (fastforce simp: image_iff)
  with Cons.IH[of "xs @ [(key j, val j)]"] Cons.prems fresh show ?case by simp
qed

lemma requests_foldl_logs:
  "requests (foldl applyOp a (map (\<lambda>i. LogRequest addr ep bl ua m (ts i) (t i)) js)) =
     foldl (\<lambda>reqs i. AList.update (addr @ ''-'' @ show_int (t i))
        \<lparr>r_ip = addr, r_endpoint = ep, r_blocked = bl, r_userAgent = ua,
         r_method = m, r_timestamp = ts i\<rparr> reqs) (requests a) js"
  by (induction js arbitrary: a) (simp_all add: requests_logRequest)

lemma key_inj:
  "addr @ ''-'' @ show_int (int i) = addr @ ''-'' @ show_int (int j) \<Longrightarrow> i = j"
proof -
  assume "addr @ ''-'' @ show_int (int i) = addr @ ''-'' @ show_int (int j)"
  then have "digits (int i) = digits (int j)" by (simp add: show_int_def)
  then have "int i = int j" by (rule digits_inj[rotated 2]) simp_all
  then show "i = j" by simp
qed

lemma burst_keys_distinct:
  "distinct (map (\<lambda>i. addr @ ''-'' @ show_int (int i)) [1 ..< Suc n])"
proof -
  have "inj_on (\<lambda>i. addr @ ''-'' @ show_int (int i)) (set [1 ..< Suc n])"
    by (rule inj_onI) (rule key_inj)
  then show ?thesis by (simp only: distinct_map distinct_upt simp_thms)
qed

lemma requests_burst:
  "map snd (requests (runOps (burst n))) =
     map (\<lambda>i. \<lparr>r_ip = ''1.2.3.4'', r_endpoint = ''/api/projects'', r_blocked = False,
        r_userAgent = [], r_method = ''GET'', r_timestamp = int i\<rparr>) [1 ..< Suc n]"
proof -
  let ?key = "\<lambda>i. ''1.2.3.4'' @ ''-'' @ show_int (int i)"
  let ?val = "\<lambda>i. \<lparr>r_ip = ''1.2.3.4'', r_endpoint = ''/api/projects'', r_blocked = False,
        r_userAgent = [], r_method = ''GET'', r_timestamp = int i\<rparr>"
  have d: "distinct (map ?key [1 ..< Suc n])" by (rule burst_keys_distinct)
  have f: "\<forall>j \<in> set [1 ..< Suc n]. ?key j \<notin> fst ` set []" by simp
  have e: "requests emptyStore = []" by (simp add: emptyStore_def)
  have "requests (runOps (burst n)) = [] @ map (\<lambda>i. (?key i, ?val i)) [1 ..< Suc n]"
    unfolding runOps_def burst_def requests_foldl_logs e
    by (rule foldl_update_fresh[OF d f])
  then show ?thesis by (simp add: comp_def del: upt_Suc)
qed

lemma inLastHour_burst:
  "now \<le> 3600000 \<Longrightarrow> length (inLastHour now (runOps (burst n))) = n"
  by (simp add: inLastHour_def requests_burst filter_map comp_def del: upt_Suc)

lemma totalRequests_capped:
  "totalRequests (snap_summary (getAnalytics now a)) = min 100 (length (inLastHour now a))"
  by (simp add: getAnalytics_def Let_def sortDesc_def min.commute)

text \<open>
  Claim C9 says that the summary of \<open>getAnalytics()\<close> reports as \<open>totalRequests\<close> the
  number of all retained records of the last hour, however many there are. The code cuts
  the list of those records to its 100 newest entries (\<open>slice(0, 100)\<close>) before it
  counts them: after 101 requests logged in 101 successive milliseconds, all within the
  last hour, the summary reports 100 requests.
\<close>

theorem summary_total_capped:
  "length (inLastHour 1000 (runOps (burst 101))) = 101 \<and>
   totalRequests (snap_summary (getAnalytics 1000 (runOps (burst 101)))) = 100"
  by (simp add: totalRequests_capped inLastHour_burst)


section \<open>Properties of the rate limiters\<close>

subsection \<open>Requests beyond the limit within one window\<close>

lemma roundSeconds_div: "roundSeconds ms = (ms + 500) div 1000"
proof -
  have "real_of_int ms / 1000 + 1 / 2 = real_of_int (ms + 500) / real_of_int 1000" by simp
  then show ?thesis
    unfolding roundSeconds_def by (simp only: floor_divide_of_int_eq)
qed

lemma hit_within:
  "cs key = Some \<lparr>windowStart = ws, hits = c\<rparr> \<Longrightarrow> now - ws < window \<Longrightarrow>
   hit window now key cs = (Suc c, cs(key \<mapsto> \<lparr>windowStart = ws, hits = Suc c\<rparr>))"
  by (simp add: hit_def)

lemma hit_fresh:
  "cs key = None \<Longrightarrow>
   hit window now key cs = (1, cs(key \<mapsto> \<lparr>windowStart = now, hits = 1\<rparr>))"
  by (simp add: hit_def)

lemma analyticsLimiter_within:
  assumes "cs (ip req) = Some \<lparr>windowStart = ws, hits = c\<rparr>" "c_now clk - ws < windowMs opts"
  shows "\<exists>a'. analyticsLimiter opts req clk (a, cs) =
     (if configuredMax opts < int (Suc c) then Block (rejection opts) else Pass,
      (a', cs(ip req \<mapsto> \<lparr>windowStart = ws, hits = Suc c\<rparr>)))"
  using assms
  by (simp add: analyticsLimiter_def rateLimit_def analytics_skip_def analytics_handler_def
      hit_within rejection_def)

lemma run_within:
  assumes "cs addr = Some \<lparr>windowStart = ws, hits = c\<rparr>"
    and "\<forall>(req, clk) \<in> set invs. ip req = addr \<and> c_now clk - ws < windowMs opts"
  shows "fst (analyticsLimiterRun opts invs (a, cs)) =
     replicate (min (length invs) (nat (configuredMax opts) - c)) Pass @
     replicate (length invs - (nat (configuredMax opts) - c)) (Block (rejection opts))"
  using assms
proof (induction invs arbitrary: a cs c)
  case Nil
  then show ?case by simp
next
  case (Cons inv invs)
  obtain req clk where inv: "inv = (req, clk)" by (cases inv)
  from Cons.prems inv have addr: "ip req = addr" and win: "c_now clk - ws < windowMs opts"
    by auto
  from analyticsLimiter_within[of cs req ws c clk opts a] Cons.prems(1) addr win
  obtain a' where step: "analyticsLimiter opts req clk (a, cs) =
     (if configuredMax opts < int (Suc c) then Block (rejection opts) else Pass,
      (a', cs(addr \<mapsto> \<lparr>windowStart = ws, hits = Suc c\<rparr>)))"
    by auto
  have rest: "fst (analyticsLimiterRun opts invs (a', cs(addr \<mapsto> \<lparr>windowStart = ws, hits = Suc c\<rparr>))) =
     replicate (min (length invs) (nat (configuredMax opts) - Suc c)) Pass @
     replicate (length invs - (nat (configuredMax opts) - Suc c)) (Block (rejection opts))"
    using Cons.prems(2) by (intro Cons.IH) auto
  show ?case
  proof (cases "configuredMax opts < int (Suc c)")
    case True
    then have "nat (configuredMax opts) - c = 0" by simp
    with True step rest inv show ?thesis
      by (simp add: split_beta replicate_Suc[symmetric] del: replicate_Suc)
  next
    case False
    then have "nat (configuredMax opts) - c = Suc (nat (configuredMax opts) - Suc c)" by linarith
    with False step rest inv show ?thesis
      by (simp add: split_beta)
  qed
qed

lemma ceilSeconds_div: "ceilSeconds ms = (ms + 999) div 1000"
proof -
  have "real_of_int ms / 1000 = real_of_int ms / real_of_int 1000" by simp
  then have "ceilSeconds ms = - ((- ms) div 1000)"
    unfolding ceilSeconds_def ceiling_def
    by (metis floor_divide_of_int_eq minus_divide_left of_int_minus)
  then show ?thesis by linarith
qed

lemma analyticsLimiter_first:
  assumes "cs (ip req) = None \<or> (\<exists>st. cs (ip req) = Some st \<and> windowMs opts \<le> c_now clk - windowStart st)"
  shows "\<exists>a'. analyticsLimiter opts req clk (a, cs) =
     (if configuredMax opts < 1 then Block (rejection opts) else Pass,
      (a', cs(ip req \<mapsto> \<lparr>windowStart = c_now clk, hits = 1\<rparr>)))"
  using assms
  by (auto simp add: analyticsLimiter_def rateLimit_def analytics_skip_def analytics_handler_def
      hit_def rejection_def)

lemma stabilityLimiter_within:
  assumes "cs (ip req) = Some \<lparr>windowStart = ws, hits = c\<rparr>" "now - ws < windowMs opts"
    "\<not> stability_skip req"
  shows "stabilityLimiter opts p req now cs =
     (if stability_max (max_opt opts) p req < int (Suc c)
      then Block \<lparr>status = 429, json = stability_message opts p\<rparr> else Pass,
      cs(ip req \<mapsto> \<lparr>windowStart = ws, hits = Suc c\<rparr>))"
  using assms by (simp add: stabilityLimiter_def rateLimit_def hit_within)

lemma stabilityLimiter_first:
  assumes "cs (ip req) = None \<or>
      (\<exists>st. cs (ip req) = Some st \<and> windowMs opts \<le> now - windowStart st)"
    "\<not> stability_skip req"
  shows "stabilityLimiter opts p req now cs =
     (if stability_max (max_opt opts) p req < 1
      then Block \<lparr>status = 429, json = stability_message opts p\<rparr> else Pass,
      cs(ip req \<mapsto> \<lparr>windowStart = now, hits = 1\<rparr>))"
  using assms by (auto simp add: stabilityLimiter_def rateLimit_def hit_def)

lemma stability_run_within:
  assumes "cs addr = Some \<lparr>windowStart = ws, hits = c\<rparr>"
    and "\<forall>(p', req, now) \<in> set invs. p' = p \<and> ip req = addr \<and> \<not> stability_skip req \<and>
       stability_max (max_opt opts) p req = E \<and> now - ws < windowMs opts"
  shows "fst (stabilityLimiterRun opts invs cs) =
     replicate (min (length invs) (nat E - c)) Pass @
     replicate (length invs - (nat E - c)) (Block \<lparr>status = 429, json = stability_message opts p\<rparr>)"
  using assms
proof (induction invs arbitrary: cs c)
  case Nil
  then show ?case by simp
next
  case (Cons inv invs)
  obtain p' req now where inv: "inv = (p', req, now)" by (cases inv)
  from Cons.prems inv have f: "p' = p" "ip req = addr" "\<not> stability_skip req"
    "stability_max (max_opt opts) p req = E" "now - ws < windowMs opts"
    by auto
  from stabilityLimiter_within[of cs req ws c now opts p] Cons.prems(1) f
  have step: "stabilityLimiter opts p req now cs =
     (if E < int (Suc c) then Block \<lparr>status = 429, json = stability_message opts p\<rparr> else Pass,
      cs(addr \<mapsto> \<lparr>windowStart = ws, hits = Suc c\<rparr>))"
    by simp
  have rest: "fst (stabilityLimiterRun opts invs (cs(addr \<mapsto> \<lparr>windowStart = ws, hits = Suc c\<rparr>))) =
     replicate (min (length invs) (nat E - Suc c)) Pass @
     replicate (length invs - (nat E - Suc c)) (Block \<lparr>status = 429, json = stability_message opts p\<rparr>)"
    using Cons.prems(2) by (intro Cons.IH) auto
  show ?case
  proof (cases "E < int (Suc c)")
    case True
    then have "nat E - c = 0" by simp
    with True step rest inv f(1) show ?thesis
      by (simp add: split_beta replicate_Suc[symmetric] del: replicate_Suc)
  next
    case False
    then have "nat E - c = Suc (nat E - Suc c)" by linarith
    with False step rest inv f(1) show ?thesis
      by (simp add: split_beta)
  qed
qed

lemma stability_run_window:
  assumes fresh: "cs addr = None \<or>
      (\<exists>st. cs addr = Some st \<and> windowMs opts \<le> start - windowStart st)"
    and same: "\<forall>(p', req, now) \<in> set ((p, first, start) # rest).
      p' = p \<and> ip req = addr \<and> \<not> stability_skip req \<and>
      stability_max (max_opt opts) p req = E \<and> now - start < windowMs opts"
  shows "fst (stabilityLimiterRun opts ((p, first, start) # rest) cs) =
     replicate (min (Suc (length rest)) (nat E)) Pass @
     replicate (Suc (length rest) - nat E) (Block \<lparr>status = 429, json = stability_message opts p\<rparr>)"
proof -
  from same have f: "ip first = addr" "\<not> stability_skip first"
    "stability_max (max_opt opts) p first = E" by simp_all
  from stabilityLimiter_first[of cs first opts start p] fresh f
  have step: "stabilityLimiter opts p first start cs =
     (if E < 1 then Block \<lparr>status = 429, json = stability_message opts p\<rparr> else Pass,
      cs(addr \<mapsto> \<lparr>windowStart = start, hits = 1\<rparr>))"
    by simp
  have rest: "fst (stabilityLimiterRun opts rest (cs(addr \<mapsto> \<lparr>windowStart = start, hits = 1\<rparr>))) =
     replicate (min (length rest) (nat E - 1)) Pass @
     replicate (length rest - (nat E - 1)) (Block \<lparr>status = 429, json = stability_message opts p\<rparr>)"
    using same
    by (subst stability_run_within[where addr = addr and ws = start and c = 1 and p = p and E = E])
      auto
  show ?thesis
  proof (cases "E < 1")
    case True
    then have "nat E = 0" by simp
    with True step rest show ?thesis
      by (simp add: split_beta replicate_Suc[symmetric] del: replicate_Suc)
  next
    case False
    then obtain k where k: "nat E = Suc k" by (cases "nat E") auto
    with False step rest show ?thesis
      by (simp add: split_beta)
  qed
qed

text \<open>
  Claim C2, as stated: the requests beyond the limit are rejected with a body carrying a
  retry-after equal to the seconds that remain until the window resets, the configured
  limit and the window length. The handler of \<open>createAnalyticsLimiter\<close> sends
  \<open>Math.round(options.windowMs / 1000)\<close>, the length of the whole window, whatever time
  has passed: the sixth login attempt of a client, ten minutes into a window of fifteen,
  is told to retry after 900 seconds, where 300 seconds remain. The message of
  \<open>createStabilityRateLimit\<close> does the same with \<open>Math.ceil\<close>, and carries the system
  status where the claim has the limit and the window length: the eighth login attempt
  under memory pressure (effective limit 7), ten minutes into the window, gets 900 and
  \<open>under_pressure\<close>.
\<close>

theorem retryAfter_counterexample:
  "fst (analyticsLimiterRun limiters_auth sixLogins (emptyStore, noCounters)) ! 5 =
     Block \<lparr>status = 429,
        json = RateLimitBody False ''Too many authentication attempts. Please try again later.''
          900 ''rate_limit_exceeded'' (Some 5) 900000\<rparr>
   \<and> fst (stabilityLimiterRun rateLimiters_auth eightLogins noCounters) ! 7 =
     Block \<lparr>status = 429, json = StabilityBody False
        ''Too many authentication attempts. Please try again later.'' 900 ''under_pressure''\<rparr>
   \<and> spec_retryAfter 0 (windowMs limiters_auth) 600000 = 300
   \<and> spec_retryAfter 0 (windowMs rateLimiters_auth) 600000 = 300"
  by code_simp

text \<open>
  Claim C2, amended: when a client sends \<open>N\<close> requests within one window of one limiter,
  starting with no live window for that client, and the effective limit is the same for
  all of them, then exactly the first \<open>min N limit\<close> requests are admitted and the other
  \<open>N - limit\<close> are rejected with status 429. For a limiter built by
  \<open>createAnalyticsLimiter\<close> the effective limit is the configured limit, and the body
  carries the configured message (or the default one), the configured limit, the window
  length, and a retry-after that is the length of the whole window in seconds (rounded),
  whatever time remains in the window. For a limiter built by
  \<open>createStabilityRateLimit\<close> the effective limit is the dynamic maximum (the same for
  requests of one path class under the same memory flag; none of the requests goes to a
  health path), and the body carries the message, the length of the whole window in
  seconds (rounded up) as retry-after, and the system status. The window lengths are
  below \<open>2 ^ 52\<close> ms, where the quotient by 1000 the code takes on doubles rounds as the
  exact quotient does.
\<close>

theorem rate_limit_window:
  assumes bound: "windowMs opts < 2 ^ 52" "windowMs sopts < 2 ^ 52"
    and limit: "max_opt opts = Some L"
    and fresh: "cs addr = None \<or>
      (\<exists>st. cs addr = Some st \<and> windowMs opts \<le> c_now fclk - windowStart st)"
    and same: "\<forall>(req, clk) \<in> set ((first, fclk) # rest).
      ip req = addr \<and> c_now clk - c_now fclk < windowMs opts"
    and sfresh: "scs saddr = None \<or>
      (\<exists>st. scs saddr = Some st \<and> windowMs sopts \<le> start - windowStart st)"
    and ssame: "\<forall>(p', req, now) \<in> set ((p, sfirst, start) # srest).
      p' = p \<and> ip req = saddr \<and> \<not> stability_skip req \<and>
      stability_max (max_opt sopts) p req = E \<and> now - start < windowMs sopts"
  shows "fst (analyticsLimiterRun opts ((first, fclk) # rest) (a, cs)) =
     replicate (min (Suc (length rest)) (nat L)) Pass @
     replicate (Suc (length rest) - nat L)
       (Block \<lparr>status = 429,
          json = RateLimitBody False (messageOrDefault (message_opt opts))
            ((windowMs opts + 500) div 1000) ''rate_limit_exceeded'' (Some L) (windowMs opts)\<rparr>)
   \<and> fst (stabilityLimiterRun sopts ((p, sfirst, start) # srest) scs) =
     replicate (min (Suc (length srest)) (nat E)) Pass @
     replicate (Suc (length srest) - nat E)
       (Block \<lparr>status = 429,
          json = StabilityBody False (messageOrDefault (message_opt sopts))
            ((windowMs sopts + 999) div 1000)
            (if p then ''under_pressure'' else ''healthy'')\<rparr>)"
proof -
  have cm: "configuredMax opts = L" using limit by (simp add: configuredMax_def)
  have rj: "rejection opts = \<lparr>status = 429,
          json = RateLimitBody False (messageOrDefault (message_opt opts))
            ((windowMs opts + 500) div 1000) ''rate_limit_exceeded'' (Some L) (windowMs opts)\<rparr>"
    by (simp add: rejection_def roundSeconds_div limit)
  from same have addr: "ip first = addr" by simp
  from analyticsLimiter_first[of cs first opts fclk a] fresh addr
  obtain a' where step: "analyticsLimiter opts first fclk (a, cs) =
     (if L < 1 then Block (rejection opts) else Pass,
      (a', cs(addr \<mapsto> \<lparr>windowStart = c_now fclk, hits = 1\<rparr>)))"
    by (auto simp: cm)
  have rest: "fst (analyticsLimiterRun opts rest
        (a', cs(addr \<mapsto> \<lparr>windowStart = c_now fclk, hits = 1\<rparr>))) =
     replicate (min (length rest) (nat L - 1)) Pass @
     replicate (length rest - (nat L - 1)) (Block (rejection opts))"
    using same
    by (subst run_within[where addr = addr and ws = "c_now fclk" and c = 1]) (auto simp: cm)
  have counted: "fst (analyticsLimiterRun opts ((first, fclk) # rest) (a, cs)) =
     replicate (min (Suc (length rest)) (nat L)) Pass @
     replicate (Suc (length rest) - nat L) (Block (rejection opts))"
  proof (cases "L < 1")
    case True
    then have "nat L = 0" by simp
    with True step rest show ?thesis
      by (simp add: split_beta replicate_Suc[symmetric] del: replicate_Suc)
  next
    case False
    then obtain k where k: "nat L = Suc k" by (cases "nat L") auto
    with False step rest show ?thesis
      by (simp add: split_beta)
  qed
  have sm: "stability_message sopts p =
      StabilityBody False (messageOrDefault (message_opt sopts))
        ((windowMs sopts + 999) div 1000) (if p then ''under_pressure'' else ''healthy'')"
    by (simp add: stability_message_def ceilSeconds_div)
  have scounted: "fst (stabilityLimiterRun sopts ((p, sfirst, start) # srest) scs) =
     replicate (min (Suc (length srest)) (nat E)) Pass @
     replicate (Suc (length srest) - nat E)
       (Block \<lparr>status = 429, json = stability_message sopts p\<rparr>)"
    using sfresh ssame
    by (rule stability_run_window[where cs = scs and addr = saddr and opts = sopts
          and start = start and p = p and first = sfirst and rest = srest and E = E])
  from counted scounted show ?thesis
    unfolding rj sm by simp
qed

theorem rate_limit_window_witness:
  "fst (analyticsLimiterRun limiters_auth sixLogins (emptyStore, noCounters)) =
     [Pass, Pass, Pass, Pass, Pass,
      Block \<lparr>status = 429,
        json = RateLimitBody False ''Too many authentication attempts. Please try again later.''
          900 ''rate_limit_exceeded'' (Some 5) 900000\<rparr>]
   \<and> fst (stabilityLimiterRun rateLimiters_auth eightLogins noCounters) =
     [Pass, Pass, Pass, Pass, Pass, Pass, Pass,
      Block \<lparr>status = 429, json = StabilityBody False
        ''Too many authentication attempts. Please try again later.'' 900 ''under_pressure''\<rparr>]"
proof -
  have six: "sixLogins = (loginReq, clockAt 0) #
      map (\<lambda>t. (loginReq, clockAt t)) [1000, 2000, 3000, 4000, 600000]"
    by (simp add: sixLogins_def)
  have eight: "eightLogins = (True, loginReq, 0) #
      map (\<lambda>t. (True, loginReq, t)) [1000, 2000, 3000, 4000, 5000, 6000, 600000]"
    by (simp add: eightLogins_def)
  have b: "windowMs limiters_auth < 2 ^ 52" "windowMs rateLimiters_auth < 2 ^ 52"
    by (simp_all add: limiters_auth_def rateLimiters_auth_def)
  have 1: "max_opt limiters_auth = Some 5" by (simp add: limiters_auth_def)
  have 2: "noCounters ''1.2.3.4'' = None \<or>
      (\<exists>st. noCounters ''1.2.3.4'' = Some st \<and>
         windowMs limiters_auth \<le> c_now (clockAt 0) - windowStart st)"
    by (simp add: noCounters_def)
  have 3: "\<forall>(req, clk) \<in> set ((loginReq, clockAt 0) #
        map (\<lambda>t. (loginReq, clockAt t)) [1000, 2000, 3000, 4000, 600000]).
      ip req = ''1.2.3.4'' \<and> c_now clk - c_now (clockAt 0) < windowMs limiters_auth"
    by (simp add: loginReq_def clockAt_def limiters_auth_def)
  have 4: "noCounters ''1.2.3.4'' = None \<or>
      (\<exists>st. noCounters ''1.2.3.4'' = Some st \<and>
         windowMs rateLimiters_auth \<le> 0 - windowStart st)"
    by (simp add: noCounters_def)
  have mx: "stability_max (max_opt rateLimiters_auth) True loginReq = 7"
    by (simp add: stability_max_def baseMax_def isAdminPath_def rateLimiters_auth_def
        loginReq_def floor_half)
  have sk: "\<not> stability_skip loginReq" "ip loginReq = ''1.2.3.4''"
    by (simp_all add: stability_skip_def loginReq_def)
  have 5: "\<forall>(p', req, now) \<in> set ((True, loginReq, 0) #
        map (\<lambda>t. (True, loginReq, t)) [1000, 2000, 3000, 4000, 5000, 6000, 600000]).
      p' = True \<and> ip req = ''1.2.3.4'' \<and> \<not> stability_skip req \<and>
      stability_max (max_opt rateLimiters_auth) True req = 7 \<and>
      now - 0 < windowMs rateLimiters_auth"
    using mx sk by (simp add: rateLimiters_auth_def)
  from rate_limit_window [where opts = limiters_auth and sopts = rateLimiters_auth
      and a = emptyStore and L = 5 and cs = noCounters and addr = "''1.2.3.4''"
      and fclk = "clockAt 0" and first = loginReq
      and rest = "map (\<lambda>t. (loginReq, clockAt t)) [1000, 2000, 3000, 4000, 600000]"
      and scs = noCounters and saddr = "''1.2.3.4''" and start = 0 and p = True
      and sfirst = loginReq and E = 7
      and srest = "map (\<lambda>t. (True, loginReq, t)) [1000, 2000, 3000, 4000, 5000, 6000, 600000]",
      OF b 1 2 3 4 5]
  show ?thesis
    by (simp add: six eight limiters_auth_def rateLimiters_auth_def messageOrDefault_def
        eval_nat_numeral)
qed

subsection \<open>Privileged credentials\<close>

lemma smart_skip_privileged:
  assumes "authorization req = Some (''Bearer '' @ token)" "token \<noteq> []"
    "verify token = Some decoded"
    "role decoded = Some ''admin'' \<or> role decoded = Some ''moderator''"
  shows "smart_skip verify req"
  using assms by (auto simp: smart_skip_def smart_skip_try_def startsWith_def)

lemma smartLimiter_skipped:
  "smart_skip verify req \<Longrightarrow> smartLimiter verify opts req now cs = (Pass, cs)"
  by (simp add: smartLimiter_def rateLimit_def)

lemma smartLimiter_counted:
  "\<not> smart_skip verify req \<Longrightarrow> smartLimiter verify opts req now cs =
     (if configuredMax opts < int (fst (hit (windowMs opts) now (ip req) cs))
      then Block \<lparr>status = 429, json = smart_message opts\<rparr> else Pass,
      snd (hit (windowMs opts) now (ip req) cs))"
  by (simp add: smartLimiter_def rateLimit_def split_beta)

lemma smartLimiterRun_skipped:
  "\<forall>(r, t) \<in> set reqs. smart_skip verify r \<Longrightarrow>
   smartLimiterRun verify opts reqs cs = (replicate (length reqs) Pass, cs)"
  by (induction reqs arbitrary: cs) (auto simp: smartLimiter_skipped)

lemma smart_skip_unverified:
  assumes "authorization req = None \<or>
     (\<exists>h. authorization req = Some h \<and>
        (\<not> startsWith h ''Bearer '' \<or> drop 7 h = [] \<or> verify (drop 7 h) = None))"
  shows "\<not> smart_skip verify req"
  using assms
  by (auto simp: smart_skip_def smart_skip_try_def Let_def split: if_splits)

text \<open>
  Claim C3: a limiter built by \<open>createSmartLimiter\<close> does not count a request whose
  \<open>Authorization\<close> header is \<open>Bearer\<close> followed by a token that verifies and whose
  payload has the role admin or moderator, and it passes the request on, whatever the
  counters hold and however many such requests come; a request whose header is absent,
  does not start with \<open>Bearer\<close>, carries an empty token, or whose token fails
  verification is counted like any other request: the outcome is a pass or the rate-limit
  answer 429, never an error of the verification (the exception \<open>jwt.verify\<close> throws is
  caught and turned into "do not skip").
\<close>

theorem smart_limiter_credentials:
  "(authorization req = Some (''Bearer '' @ token) \<and> token \<noteq> [] \<and>
      verify token = Some decoded \<and>
      (role decoded = Some ''admin'' \<or> role decoded = Some ''moderator'')
      \<longrightarrow> smart_skip verify req \<and> smartLimiter verify opts req now cs = (Pass, cs))
   \<and> ((\<forall>(r, t) \<in> set reqs. smart_skip verify r)
      \<longrightarrow> smartLimiterRun verify opts reqs cs = (replicate (length reqs) Pass, cs))
   \<and> (authorization req = None \<or>
        (\<exists>h. authorization req = Some h \<and>
           (\<not> startsWith h ''Bearer '' \<or> drop 7 h = [] \<or> verify (drop 7 h) = None))
      \<longrightarrow> \<not> smart_skip verify req \<and>
          smartLimiter verify opts req now cs =
            (if configuredMax opts < int (fst (hit (windowMs opts) now (ip req) cs))
             then Block \<lparr>status = 429, json = smart_message opts\<rparr> else Pass,
             snd (hit (windowMs opts) now (ip req) cs)))
   \<and> (authorization req = Some (''Bearer '' @ token) \<and> token \<noteq> [] \<and> verify token = None
      \<longrightarrow> smart_skip_try verify req = Thrown \<and> \<not> smart_skip verify req)"
proof (intro conjI)
  show "authorization req = Some (''Bearer '' @ token) \<and> token \<noteq> [] \<and> verify token = None
      \<longrightarrow> smart_skip_try verify req = Thrown \<and> \<not> smart_skip verify req"
    by (simp add: smart_skip_def smart_skip_try_def startsWith_def)
  show "authorization req = Some (''Bearer '' @ token) \<and> token \<noteq> [] \<and>
      verify token = Some decoded \<and>
      (role decoded = Some ''admin'' \<or> role decoded = Some ''moderator'')
      \<longrightarrow> smart_skip verify req \<and> smartLimiter verify opts req now cs = (Pass, cs)"
    using smart_skip_privileged smartLimiter_skipped by blast
  show "(\<forall>(r, t) \<in> set reqs. smart_skip verify r)
      \<longrightarrow> smartLimiterRun verify opts reqs cs = (replicate (length reqs) Pass, cs)"
    using smartLimiterRun_skipped by blast
  show "authorization req = None \<or>
        (\<exists>h. authorization req = Some h \<and>
           (\<not> startsWith h ''Bearer '' \<or> drop 7 h = [] \<or> verify (drop 7 h) = None))
      \<longrightarrow> \<not> smart_skip verify req \<and>
          smartLimiter verify opts req now cs =
            (if configuredMax opts < int (fst (hit (windowMs opts) now (ip req) cs))
             then Block \<lparr>status = 429, json = smart_message opts\<rparr> else Pass,
             snd (hit (windowMs opts) now (ip req) cs))"
    using smart_skip_unverified[of req verify] smartLimiter_counted[of verify req opts now cs]
    by blast
qed

theorem smart_limiter_credentials_witness:
  "smart_skip verifyDemo adminTokenReq
   \<and> smartLimiter verifyDemo smart_api adminTokenReq 5000 usedUp = (Pass, usedUp)
   \<and> smartLimiterRun verifyDemo smart_api (map (\<lambda>t. (adminTokenReq, t)) [1, 2, 3]) usedUp
        = ([Pass, Pass, Pass], usedUp)
   \<and> smart_skip_try verifyDemo expiredTokenReq = Thrown
   \<and> \<not> smart_skip verifyDemo expiredTokenReq
   \<and> fst (smartLimiter verifyDemo smart_api expiredTokenReq 5000 noCounters) = Pass
   \<and> map_option hits (snd (smartLimiter verifyDemo smart_api expiredTokenReq 5000 noCounters)
        ''10.0.0.2'') = Some 1"
proof -
  have a: "authorization adminTokenReq = Some (''Bearer '' @ ''admin-token'') \<and>
      ''admin-token'' \<noteq> [] \<and> verifyDemo ''admin-token'' = Some \<lparr>role = Some ''admin''\<rparr> \<and>
      (role \<lparr>role = Some ''admin''\<rparr> = Some ''admin'' \<or>
       role \<lparr>role = Some ''admin''\<rparr> = Some ''moderator'')"
    by (simp add: adminTokenReq_def verifyDemo_def)
  have b: "authorization expiredTokenReq = None \<or>
        (\<exists>h. authorization expiredTokenReq = Some h \<and>
           (\<not> startsWith h ''Bearer '' \<or> drop 7 h = [] \<or> verifyDemo (drop 7 h) = None))"
    by (simp add: expiredTokenReq_def verifyDemo_def)
  note th = smart_limiter_credentials [of adminTokenReq "''admin-token''" verifyDemo
      "\<lparr>role = Some ''admin''\<rparr>" smart_api 5000 usedUp "map (\<lambda>t. (adminTokenReq, t)) [1, 2, 3]"]
  note th2 = smart_limiter_credentials [of expiredTokenReq "''admin-token''" verifyDemo
      "\<lparr>role = Some ''admin''\<rparr>" smart_api 5000 noCounters "[]"]
  have c: "smart_skip_try verifyDemo expiredTokenReq = Thrown"
    by (simp add: smart_skip_try_def expiredTokenReq_def verifyDemo_def startsWith_def)
  have d: "hit 900000 5000 (ip expiredTokenReq) noCounters =
      (1, noCounters(''10.0.0.2'' \<mapsto> \<lparr>windowStart = 5000, hits = 1\<rparr>))"
    by (simp add: hit_def noCounters_def expiredTokenReq_def)
  from th a have 1: "smart_skip verifyDemo adminTokenReq"
    "smartLimiter verifyDemo smart_api adminTokenReq 5000 usedUp = (Pass, usedUp)" by blast+
  from th 1 have 2: "smartLimiterRun verifyDemo smart_api (map (\<lambda>t. (adminTokenReq, t)) [1, 2, 3]) usedUp
        = ([Pass, Pass, Pass], usedUp)" by simp
  from th2 b have 3: "\<not> smart_skip verifyDemo expiredTokenReq"
    "smartLimiter verifyDemo smart_api expiredTokenReq 5000 noCounters =
            (if configuredMax smart_api < int (fst (hit (windowMs smart_api) 5000 (ip expiredTokenReq) noCounters))
             then Block \<lparr>status = 429, json = smart_message smart_api\<rparr> else Pass,
             snd (hit (windowMs smart_api) 5000 (ip expiredTokenReq) noCounters))" by blast+
  from 3(2) have 4: "fst (smartLimiter verifyDemo smart_api expiredTokenReq 5000 noCounters) = Pass"
    "map_option hits (snd (smartLimiter verifyDemo smart_api expiredTokenReq 5000 noCounters)
        ''10.0.0.2'') = Some 1"
    by (simp_all add: d configuredMax_def smart_api_def)
  from 1 2 3(1) 4 c show ?thesis by simp
qed

subsection \<open>Exempt paths\<close>

lemma stabilityLimiter_skipped:
  "stability_skip req \<Longrightarrow> stabilityLimiter opts p req now cs = (Pass, cs)"
  by (simp add: stabilityLimiter_def rateLimit_def)

lemma stabilityLimiter_counted:
  "\<not> stability_skip req \<Longrightarrow> stabilityLimiter opts p req now cs =
     (if stability_max (max_opt opts) p req < int (fst (hit (windowMs opts) now (ip req) cs))
      then Block \<lparr>status = 429, json = stability_message opts p\<rparr> else Pass,
      snd (hit (windowMs opts) now (ip req) cs))"
  by (simp add: stabilityLimiter_def rateLimit_def split_beta)

lemma analyticsLimiter_counts:
  "snd (snd (analyticsLimiter opts req clk (a, cs))) =
     snd (hit (windowMs opts) (c_now clk) (ip req) cs)"
  by (simp add: analyticsLimiter_def rateLimit_def analytics_skip_def analytics_handler_def
      split_beta)

text \<open>
  Claim C7, as stated: a request to the health-check endpoint or to the logout endpoint is
  never counted and never rejected by a rate limiter, whatever the route class. The
  \<open>skip\<close> callback of \<open>createStabilityRateLimit\<close> knows the two health paths only:
  a logout request is counted, and the 151st request of a client in the \<open>api\<close> class
  (the class a logout passes through) is rejected although it is a logout. The \<open>skip\<close> callback of
  \<open>createAnalyticsLimiter\<close> never skips, so there even a health check is counted.
\<close>

theorem logout_not_exempt:
  "\<not> stability_skip logoutReq
   \<and> fst (stabilityLimiter rateLimiters_api False logoutReq 1000 apiUsedUp) =
       Block \<lparr>status = 429, json = StabilityBody False
         ''Too many requests. Please try again later.'' 900 ''healthy''\<rparr>
   \<and> map_option hits (snd (stabilityLimiter rateLimiters_api False logoutReq 1000 apiUsedUp)
        ''1.2.3.4'') = Some 151
   \<and> \<not> fst (analytics_skip healthReq (1000, 1000) emptyStore)
   \<and> map_option hits (snd (snd (analyticsLimiter limiters_api healthReq (clockAt 1000)
        (emptyStore, noCounters))) ''1.2.3.4'') = Some 1"
  by (simp add: stability_skip_def logoutReq_def stabilityLimiter_def rateLimit_def hit_def
      apiUsedUp_def noCounters_def rateLimiters_api_def stability_max_def baseMax_def
      isAdminPath_def stability_message_def messageOrDefault_def ceilSeconds_def
      analytics_skip_def analyticsLimiter_def healthReq_def limiters_api_def clockAt_def
      configuredMax_def)

text \<open>
  Claim C7, amended: a limiter built by \<open>createStabilityRateLimit\<close>, of whatever route
  class, passes a request whose path is exactly \<open>/health\<close> or \<open>/api/health\<close> without
  counting it; it counts every other request, logout included, and rejects it with status
  429 once the count exceeds the effective maximum. A limiter built by
  \<open>createAnalyticsLimiter\<close> skips no request and counts every one.
\<close>

theorem limiter_exemptions:
  "(path req = ''/health'' \<or> path req = ''/api/health''
      \<longrightarrow> stabilityLimiter opts p req now cs = (Pass, cs))
   \<and> (path req \<noteq> ''/health'' \<and> path req \<noteq> ''/api/health''
      \<longrightarrow> stabilityLimiter opts p req now cs =
           (if stability_max (max_opt opts) p req < int (fst (hit (windowMs opts) now (ip req) cs))
            then Block \<lparr>status = 429, json = stability_message opts p\<rparr> else Pass,
            snd (hit (windowMs opts) now (ip req) cs)))
   \<and> \<not> fst (analytics_skip req clock a)
   \<and> snd (snd (analyticsLimiter opts req clk (a, cs))) =
        snd (hit (windowMs opts) (c_now clk) (ip req) cs)"
proof (intro conjI)
  show "path req = ''/health'' \<or> path req = ''/api/health''
      \<longrightarrow> stabilityLimiter opts p req now cs = (Pass, cs)"
    using stabilityLimiter_skipped[of req opts p now cs] by (simp add: stability_skip_def)
  show "path req \<noteq> ''/health'' \<and> path req \<noteq> ''/api/health''
      \<longrightarrow> stabilityLimiter opts p req now cs =
           (if stability_max (max_opt opts) p req < int (fst (hit (windowMs opts) now (ip req) cs))
            then Block \<lparr>status = 429, json = stability_message opts p\<rparr> else Pass,
            snd (hit (windowMs opts) now (ip req) cs))"
    using stabilityLimiter_counted[of req opts p now cs] by (simp add: stability_skip_def)
  show "\<not> fst (analytics_skip req clock a)" by (simp add: analytics_skip_def)
  show "snd (snd (analyticsLimiter opts req clk (a, cs))) =
        snd (hit (windowMs opts) (c_now clk) (ip req) cs)"
    by (rule analyticsLimiter_counts)
qed

theorem limiter_exemptions_witness:
  "stabilityLimiter rateLimiters_api False healthReq 1000 apiUsedUp = (Pass, apiUsedUp)
   \<and> fst (stabilityLimiter rateLimiters_api False logoutReq 1000 apiUsedUp) =
       Block \<lparr>status = 429, json = StabilityBody False
         ''Too many requests. Please try again later.'' 900 ''healthy''\<rparr>
   \<and> \<not> fst (analytics_skip healthReq (1000, 1000) emptyStore)"
proof -
  have h: "path healthReq = ''/health'' \<or> path healthReq = ''/api/health''"
    by (simp add: healthReq_def)
  have l: "path logoutReq \<noteq> ''/health'' \<and> path logoutReq \<noteq> ''/api/health''"
    by (simp add: logoutReq_def)
  have hit151: "hit 900000 1000 ''1.2.3.4'' apiUsedUp =
      (151, apiUsedUp(''1.2.3.4'' \<mapsto> \<lparr>windowStart = 0, hits = 151\<rparr>))"
    by (simp add: hit_def apiUsedUp_def)
  have mx: "stability_max (Some 150) False logoutReq = 150"
    by (simp add: stability_max_def baseMax_def isAdminPath_def logoutReq_def)
  have msg: "stability_message rateLimiters_api False = StabilityBody False
         ''Too many requests. Please try again later.'' 900 ''healthy''"
    by (simp add: stability_message_def rateLimiters_api_def messageOrDefault_def ceilSeconds_def)
  from limiter_exemptions [of healthReq rateLimiters_api False 1000 apiUsedUp "(1000, 1000)" emptyStore] h
  have 1: "stabilityLimiter rateLimiters_api False healthReq 1000 apiUsedUp = (Pass, apiUsedUp)"
    and 3: "\<not> fst (analytics_skip healthReq (1000, 1000) emptyStore)" by blast+
  from limiter_exemptions [of logoutReq rateLimiters_api False 1000 apiUsedUp "(1000, 1000)" emptyStore] l
  have "stabilityLimiter rateLimiters_api False logoutReq 1000 apiUsedUp =
           (if stability_max (max_opt rateLimiters_api) False logoutReq
                < int (fst (hit (windowMs rateLimiters_api) 1000 (ip logoutReq) apiUsedUp))
            then Block \<lparr>status = 429, json = stability_message rateLimiters_api False\<rparr> else Pass,
            snd (hit (windowMs rateLimiters_api) 1000 (ip logoutReq) apiUsedUp))" by blast
  moreover have "max_opt rateLimiters_api = Some 150" "windowMs rateLimiters_api = 900000"
    "ip logoutReq = ''1.2.3.4''"
    by (simp_all add: rateLimiters_api_def logoutReq_def)
  ultimately have 2: "fst (stabilityLimiter rateLimiters_api False logoutReq 1000 apiUsedUp) =
       Block \<lparr>status = 429, json = StabilityBody False
         ''Too many requests. Please try again later.'' 900 ''healthy''\<rparr>"
    by (simp add: hit151 mx msg)
  from 1 2 3 show ?thesis by simp
qed

section \<open>Properties of the request queue\<close>

subsection \<open>What holds in every reachable state\<close>

lemma processQueue_cases:
  "processQueue s = s \<or>
   (\<exists>item rest. queue (rq s) = item # rest \<and> \<not> isProcessing (rq s) \<and>
      activeRequests (rq s) < maxConcurrent (rq s) \<and> \<not> isUnderPressure s \<and>
      processQueue s =
        s\<lparr>rq := (rq s)\<lparr>isProcessing := True, queue := rest,
                      activeRequests := activeRequests (rq s) + 1\<rparr>,
          timers := (timers s)(i_res item := None),
          listeners := (listeners s)(i_res item := listeners s (i_res item) @ [QueuedCleanup]),
          effects := effects s @ [Next (i_res item)]\<rparr>)"
  by (cases "queue (rq s)") (auto simp: processQueue_def Let_def)

lemma processQueue_admits:
  assumes "\<not> isProcessing (rq s)" "queue (rq s) = item # rest"
    "activeRequests (rq s) < maxConcurrent (rq s)" "\<not> isUnderPressure s"
  shows "processQueue s =
        s\<lparr>rq := (rq s)\<lparr>isProcessing := True, queue := rest,
                      activeRequests := activeRequests (rq s) + 1\<rparr>,
          timers := (timers s)(i_res item := None),
          listeners := (listeners s)(i_res item := listeners s (i_res item) @ [QueuedCleanup]),
          effects := effects s @ [Next (i_res item)]\<rparr>"
  using assms by (simp add: processQueue_def Let_def)

lemma processQueue_blocked:
  "isProcessing (rq s) \<or> queue (rq s) = [] \<or> maxConcurrent (rq s) \<le> activeRequests (rq s) \<or>
   isUnderPressure s \<Longrightarrow> processQueue s = s"
  by (auto simp: processQueue_def Let_def)


lemma queueInv_same:
  "queue (rq s') = queue (rq s) \<Longrightarrow> nextRes s' = nextRes s \<Longrightarrow> timers s' = timers s \<Longrightarrow>
   effects s' = effects s \<Longrightarrow> queueInv s' = queueInv s"
  by (simp add: queueInv_def)

lemma queueInvI:
  assumes "distinct (map i_res (queue (rq s)))"
    and "\<And>x. x \<in> set (queue (rq s)) \<Longrightarrow> i_res x < nextRes s"
    and "\<And>x. x \<in> set (queue (rq s)) \<Longrightarrow> timers s (i_res x) = Some (x, 10000)"
    and "\<And>x. x \<in> set (queue (rq s)) \<Longrightarrow> Next (i_res x) \<notin> set (effects s)"
    and "\<And>r. Next r \<in> set (effects s) \<Longrightarrow> r < nextRes s"
    and "sorted_wrt queueOrder (queue (rq s))"
    and "\<And>r x d. timers s r = Some (x, d) \<Longrightarrow> i_res x = r"
  shows "queueInv s"
  using assms unfolding queueInv_def by blast

lemma queueInvD:
  assumes "queueInv s"
  shows "distinct (map i_res (queue (rq s)))"
    and "\<And>x. x \<in> set (queue (rq s)) \<Longrightarrow> i_res x < nextRes s"
    and "\<And>x. x \<in> set (queue (rq s)) \<Longrightarrow> timers s (i_res x) = Some (x, 10000)"
    and "\<And>x. x \<in> set (queue (rq s)) \<Longrightarrow> Next (i_res x) \<notin> set (effects s)"
    and "\<And>r. Next r \<in> set (effects s) \<Longrightarrow> r < nextRes s"
    and "sorted_wrt queueOrder (queue (rq s))"
    and "\<And>r x d. timers s r = Some (x, d) \<Longrightarrow> i_res x = r"
  using assms unfolding queueInv_def by blast+

lemma handles_differ:
  "distinct (map i_res q) \<Longrightarrow> x \<in> set q \<Longrightarrow> y \<in> set q \<Longrightarrow> x \<noteq> y \<Longrightarrow> i_res x \<noteq> i_res y"
  by (auto simp: distinct_map inj_on_def)

lemma queueInv_dequeue:
  assumes inv: "queueInv s" and q: "queue (rq s) = item # rest" and q': "queue (rq s') = rest"
    and n': "nextRes s' = nextRes s" and t': "timers s' = (timers s)(i_res item := None)"
    and e': "effects s' = effects s @ [Next (i_res item)]"
  shows "queueInv s'"
proof (rule queueInvI)
  note D = queueInvD[OF inv]
  from D(1) q have d: "i_res item \<notin> i_res ` set rest" "distinct (map i_res rest)" by simp_all
  show "distinct (map i_res (queue (rq s')))" using d q' by simp
  show "sorted_wrt queueOrder (queue (rq s'))" using D(6) q q' by simp
  show "i_res x < nextRes s'" if "x \<in> set (queue (rq s'))" for x
    using that D(2)[of x] q q' n' by simp
  have ne: "i_res x \<noteq> i_res item" if "x \<in> set rest" for x
    using that d(1) by (metis imageI)
  show "timers s' (i_res x) = Some (x, 10000)" if "x \<in> set (queue (rq s'))" for x
    using that D(3)[of x] ne[of x] q q' t' by simp
  show "Next (i_res x) \<notin> set (effects s')" if "x \<in> set (queue (rq s'))" for x
    using that D(4)[of x] ne[of x] q q' e' by simp
  show "r < nextRes s'" if "Next r \<in> set (effects s')" for r
    using that D(5)[of r] D(2)[of item] q e' n' by auto
  show "i_res x = r" if "timers s' r = Some (x, d)" for r x d
    using that D(7)[of r x d] t' by (auto split: if_splits)
qed

lemma queueInv_enqueue:
  assumes inv: "queueInv s" and fresh: "i_res item = nextRes s"
    and q': "queue (rq s') = (if isAdmin item then item # queue (rq s) else queue (rq s) @ [item])"
    and n': "nextRes s' = Suc (nextRes s)"
    and t': "timers s' = (timers s)(nextRes s \<mapsto> (item, 10000))"
    and e': "effects s' = effects s"
  shows "queueInv s'"
proof (rule queueInvI)
  note D = queueInvD[OF inv]
  have set': "set (queue (rq s')) = insert item (set (queue (rq s)))" using q' by auto
  have notin: "i_res item \<notin> i_res ` set (queue (rq s))" using D(2) fresh by fastforce
  show "distinct (map i_res (queue (rq s')))" using D(1) notin q' by simp
  show "sorted_wrt queueOrder (queue (rq s'))"
    using D(6) D(2) fresh q' by (auto simp: sorted_wrt_append queueOrder_def)
  show "i_res x < nextRes s'" if "x \<in> set (queue (rq s'))" for x
    using that D(2)[of x] fresh n' unfolding set' by auto
  show "timers s' (i_res x) = Some (x, 10000)" if "x \<in> set (queue (rq s'))" for x
    using that D(3)[of x] D(2)[of x] fresh t' unfolding set' by auto
  show "Next (i_res x) \<notin> set (effects s')" if "x \<in> set (queue (rq s'))" for x
    using that D(4)[of x] D(5)[of "nextRes s"] fresh e' unfolding set' by auto
  show "r < nextRes s'" if "Next r \<in> set (effects s')" for r
    using that D(5)[of r] e' n' by auto
  show "i_res x = r" if "timers s' r = Some (x, d)" for r x d
    using that D(7)[of r x d] t' fresh by (auto split: if_splits)
qed

lemma queueInv_admit:
  assumes inv: "queueInv s" and q': "queue (rq s') = queue (rq s)"
    and n': "nextRes s' = Suc (nextRes s)" and t': "timers s' = timers s"
    and e': "effects s' = effects s @ [Next (nextRes s)]"
  shows "queueInv s'"
proof (rule queueInvI)
  note D = queueInvD[OF inv]
  show "distinct (map i_res (queue (rq s')))" using D(1) q' by simp
  show "sorted_wrt queueOrder (queue (rq s'))" using D(6) q' by simp
  show "i_res x < nextRes s'" if "x \<in> set (queue (rq s'))" for x
    using that D(2)[of x] q' n' by simp
  show "timers s' (i_res x) = Some (x, 10000)" if "x \<in> set (queue (rq s'))" for x
    using that D(3)[of x] q' t' by simp
  show "Next (i_res x) \<notin> set (effects s')" if "x \<in> set (queue (rq s'))" for x
    using that D(4)[of x] D(2)[of x] q' e' by auto
  show "r < nextRes s'" if "Next r \<in> set (effects s')" for r
    using that D(5)[of r] e' n' by auto
  show "i_res x = r" if "timers s' r = Some (x, d)" for r x d
    using that D(7)[of r x d] t' by simp
qed

lemma sorted_wrt_remove1: "sorted_wrt P xs \<Longrightarrow> sorted_wrt P (remove1 x xs)"
  by (induction xs) (auto dest: notin_set_remove1)

lemma distinct_map_remove1: "distinct (map f xs) \<Longrightarrow> distinct (map f (remove1 x xs))"
proof (induction xs)
  case Nil
  then show ?case by simp
next
  case (Cons a xs)
  have "f a \<notin> f ` set (remove1 x xs)" if "f a \<notin> f ` set xs"
    using that set_remove1_subset[of x xs] by auto
  with Cons show ?case by auto
qed

lemma queueInv_remove:
  assumes inv: "queueInv s" and mem: "item \<in> set (queue (rq s))"
    and q': "queue (rq s') = remove1 item (queue (rq s))"
    and n': "nextRes s' = nextRes s" and t': "timers s' = (timers s)(i_res item := None)"
    and e': "effects s' = effects s @ [Json (i_res item) b]"
  shows "queueInv s'"
proof (rule queueInvI)
  note D = queueInvD[OF inv]
  from D(1) have dq: "distinct (queue (rq s))" by (simp add: distinct_map)
  have sub: "x \<in> set (queue (rq s)) \<and> x \<noteq> item" if "x \<in> set (queue (rq s'))" for x
    using that dq q' by simp
  have other: "i_res x \<noteq> i_res item" if "x \<in> set (queue (rq s'))" for x
    using sub[OF that] handles_differ[OF D(1) _ mem] by blast
  show "distinct (map i_res (queue (rq s')))" using D(1) q' by (simp add: distinct_map_remove1)
  show "sorted_wrt queueOrder (queue (rq s'))" using D(6) q' by (simp add: sorted_wrt_remove1)
  show "i_res x < nextRes s'" if "x \<in> set (queue (rq s'))" for x
    using sub[OF that] D(2)[of x] n' by simp
  show "timers s' (i_res x) = Some (x, 10000)" if "x \<in> set (queue (rq s'))" for x
    using sub[OF that] other[OF that] D(3)[of x] t' by simp
  show "Next (i_res x) \<notin> set (effects s')" if "x \<in> set (queue (rq s'))" for x
    using sub[OF that] D(4)[of x] e' by simp
  show "r < nextRes s'" if "Next r \<in> set (effects s')" for r
    using that D(5)[of r] e' n' by auto
  show "i_res x = r" if "timers s' r = Some (x, d)" for r x d
    using that D(7)[of r x d] t' by (auto split: if_splits)
qed

lemma queueInv_timer_stale:
  assumes inv: "queueInv s" and stale: "\<forall>x \<in> set (queue (rq s)). i_res x \<noteq> r"
    and q': "queue (rq s') = queue (rq s)"
    and n': "nextRes s' = nextRes s" and t': "timers s' = (timers s)(r := None)"
    and e': "effects s' = effects s"
  shows "queueInv s'"
proof (rule queueInvI)
  note D = queueInvD[OF inv]
  show "distinct (map i_res (queue (rq s')))" using D(1) q' by simp
  show "sorted_wrt queueOrder (queue (rq s'))" using D(6) q' by simp
  show "i_res x < nextRes s'" if "x \<in> set (queue (rq s'))" for x
    using that D(2)[of x] q' n' by simp
  show "timers s' (i_res x) = Some (x, 10000)" if "x \<in> set (queue (rq s'))" for x
    using that D(3)[of x] stale q' t' by auto
  show "Next (i_res x) \<notin> set (effects s')" if "x \<in> set (queue (rq s'))" for x
    using that D(4)[of x] q' e' by simp
  show "r < nextRes s'" if "Next r \<in> set (effects s')" for r
    using that D(5)[of r] e' n' by auto
  show "i_res x = r'" if "timers s' r' = Some (x, d)" for r' x d
    using that D(7)[of r' x d] t' by (auto split: if_splits)
qed

lemma queueInv_processQueue: "queueInv s \<Longrightarrow> queueInv (processQueue s)"
proof -
  assume inv: "queueInv s"
  from processQueue_cases[of s] show ?thesis
  proof (elim disjE exE conjE)
    assume "processQueue s = s" with inv show ?thesis by simp
  next
    fix item rest
    assume q: "queue (rq s) = item # rest"
      and p: "processQueue s =
        s\<lparr>rq := (rq s)\<lparr>isProcessing := True, queue := rest,
                      activeRequests := activeRequests (rq s) + 1\<rparr>,
          timers := (timers s)(i_res item := None),
          listeners := (listeners s)(i_res item := listeners s (i_res item) @ [QueuedCleanup]),
          effects := effects s @ [Next (i_res item)]\<rparr>"
    show ?thesis
      by (rule queueInv_dequeue[OF inv q]) (simp_all add: p)
  qed
qed

lemma queueInv_runListener: "queueInv s \<Longrightarrow> queueInv (runListener s l)"
proof (cases l)
  case DirectCleanup
  assume inv: "queueInv s"
  have "queueInv (s\<lparr>rq := (rq s)\<lparr>activeRequests := activeRequests (rq s) - 1\<rparr>\<rparr>)"
    using inv by (subst queueInv_same[of _ s]) simp_all
  then show ?thesis using DirectCleanup by (simp add: cleanupDirect_def queueInv_processQueue)
next
  case QueuedCleanup
  assume inv: "queueInv s"
  have "queueInv (cleanupQueued s) = queueInv s"
    by (rule queueInv_same) (simp_all add: cleanupQueued_def)
  then show ?thesis using QueuedCleanup inv by simp
qed

lemma queueInv_foldl_runListener: "queueInv s \<Longrightarrow> queueInv (foldl runListener s ls)"
  by (induction ls arbitrary: s) (simp_all add: queueInv_runListener)

lemma queueInv_timer:
  assumes inv: "queueInv s"
  shows "queueInv (step s (TimerFires r))"
proof (cases "timers s r")
  case None
  with inv show ?thesis by simp
next
  case (Some p)
  obtain item d where p: "p = (item, d)" by (cases p)
  note D = queueInvD[OF inv]
  show ?thesis
  proof (cases "item \<in> set (queue (rq s))")
    case True
    have r: "r = i_res item" using D(7)[of r item d] Some p by simp
    have tm: "timers s (i_res item) = Some (item, d)" using Some p r by simp
    show ?thesis unfolding r
      by (rule queueInv_remove[OF inv True, where b = busyResponse])
        (simp_all add: tm timeoutCallback_def True)
  next
    case False
    have "\<forall>x \<in> set (queue (rq s)). i_res x \<noteq> r"
      using D(3) Some p False by auto
    then show ?thesis
      by (rule queueInv_timer_stale[OF inv]) (simp_all add: Some p timeoutCallback_def False)
  qed
qed


lemma arrive_bypass:
  "bypassesQueue req \<Longrightarrow> middleware req r s = s\<lparr>effects := effects s @ [Next r]\<rparr>"
  by (simp add: middleware_def)

lemma arrive_direct:
  "\<not> bypassesQueue req \<Longrightarrow> activeRequests (rq s) < maxConcurrent (rq s) \<Longrightarrow>
   \<not> isUnderPressure s \<Longrightarrow>
   middleware req r s =
     s\<lparr>rq := (rq s)\<lparr>activeRequests := activeRequests (rq s) + 1\<rparr>,
       listeners := (listeners s)(r := listeners s r @ [DirectCleanup]),
       effects := effects s @ [Next r]\<rparr>"
  by (simp add: middleware_def)

lemma arrive_enqueue:
  assumes "\<not> bypassesQueue req"
    "\<not> (activeRequests (rq s) < maxConcurrent (rq s) \<and> \<not> isUnderPressure s)"
  shows "middleware req r s =
     s\<lparr>rq := (rq s)\<lparr>queue :=
           (if isAdminPath req
            then \<lparr>i_req = req, i_res = r, isAdmin = isAdminPath req\<rparr> # queue (rq s)
            else queue (rq s) @ [\<lparr>i_req = req, i_res = r, isAdmin = isAdminPath req\<rparr>])\<rparr>,
       timers := (timers s)(r \<mapsto> (\<lparr>i_req = req, i_res = r, isAdmin = isAdminPath req\<rparr>, 10000))\<rparr>"
proof -
  let ?item = "\<lparr>i_req = req, i_res = r, isAdmin = isAdminPath req\<rparr>"
  let ?s1 = "s\<lparr>rq := (rq s)\<lparr>queue :=
           (if isAdminPath req then ?item # queue (rq s) else queue (rq s) @ [?item])\<rparr>,
       timers := (timers s)(r \<mapsto> (?item, 10000))\<rparr>"
  have "processQueue ?s1 = ?s1"
    using assms(2) by (intro processQueue_blocked) auto
  moreover have "middleware req r s = processQueue ?s1"
    unfolding middleware_def Let_def
    by (simp only: if_not_P[OF assms(1)] if_not_P[OF assms(2)])
  ultimately show ?thesis by simp
qed

lemma queueInv_arrive: "queueInv s \<Longrightarrow> queueInv (step s (Arrive req))"
proof -
  assume inv: "queueInv s"
  let ?s0 = "s\<lparr>nextRes := Suc (nextRes s)\<rparr>"
  have st: "step s (Arrive req) = middleware req (nextRes s) ?s0" by simp
  consider (bypass) "bypassesQueue req"
    | (direct) "\<not> bypassesQueue req" "activeRequests (rq s) < maxConcurrent (rq s)"
        "\<not> isUnderPressure s"
    | (enqueue) "\<not> bypassesQueue req"
        "\<not> (activeRequests (rq s) < maxConcurrent (rq s) \<and> \<not> isUnderPressure s)"
    by blast
  then show ?thesis
  proof cases
    case bypass
    show ?thesis unfolding st
      by (rule queueInv_admit[OF inv]) (simp_all add: arrive_bypass[OF bypass])
  next
    case direct
    have m: "middleware req (nextRes s) ?s0 =
      ?s0\<lparr>rq := (rq ?s0)\<lparr>activeRequests := activeRequests (rq ?s0) + 1\<rparr>,
       listeners := (listeners ?s0)(nextRes s := listeners ?s0 (nextRes s) @ [DirectCleanup]),
       effects := effects ?s0 @ [Next (nextRes s)]\<rparr>"
      using direct by (intro arrive_direct) simp_all
    show ?thesis unfolding st
      by (rule queueInv_admit[OF inv]) (simp_all add: m)
  next
    case enqueue
    let ?item = "\<lparr>i_req = req, i_res = nextRes s, isAdmin = isAdminPath req\<rparr>"
    have m: "middleware req (nextRes s) ?s0 =
      ?s0\<lparr>rq := (rq ?s0)\<lparr>queue :=
           (if isAdminPath req then ?item # queue (rq ?s0) else queue (rq ?s0) @ [?item])\<rparr>,
       timers := (timers ?s0)(nextRes s \<mapsto> (?item, 10000))\<rparr>"
      using enqueue by (intro arrive_enqueue) simp_all
    show ?thesis unfolding st
      by (rule queueInv_enqueue[OF inv, where item = ?item]) (simp_all add: m)
  qed
qed

lemma queueInv_step: "queueInv s \<Longrightarrow> queueInv (step s ev)"
proof (cases ev)
  case (Arrive req)
  assume "queueInv s" then show ?thesis unfolding Arrive by (rule queueInv_arrive)
next
  case (ResEmits r e)
  assume "queueInv s" then show ?thesis
    unfolding ResEmits by (simp add: emit_def queueInv_foldl_runListener)
next
  case (TimerFires r)
  assume "queueInv s" then show ?thesis unfolding TimerFires by (rule queueInv_timer)
next
  case RunImmediate
  assume inv: "queueInv s"
  have "queueInv (s\<lparr>immediates := immediates s - 1\<rparr>)"
    using inv by (subst queueInv_same[of _ s]) simp_all
  then show ?thesis using inv RunImmediate by (simp add: queueInv_processQueue)
next
  case (MemorySample b)
  assume inv: "queueInv s"
  have "queueInv (s\<lparr>isUnderPressure := b\<rparr>)"
    using inv by (subst queueInv_same[of _ s]) simp_all
  then show ?thesis using MemorySample by simp
qed

lemma queueInv_run: "queueInv s \<Longrightarrow> queueInv (run s evs)"
  unfolding run_def by (induction evs arbitrary: s) (simp_all add: queueInv_step)

lemma queueInv_newSystem: "queueInv (newSystem m)"
  by (simp add: queueInv_def newSystem_def)

lemma queueInv_reachable: "queueInv (run (newSystem m) evs)"
  by (rule queueInv_run[OF queueInv_newSystem])

lemma goneI:
  "r < nextRes s \<Longrightarrow> (\<And>x. x \<in> set (queue (rq s)) \<Longrightarrow> i_res x \<noteq> r) \<Longrightarrow>
   Next r \<notin> set (effects s) \<Longrightarrow> gone r s"
  unfolding gone_def by blast

lemma goneD:
  assumes "gone r s"
  shows "r < nextRes s" and "\<And>x. x \<in> set (queue (rq s)) \<Longrightarrow> i_res x \<noteq> r"
    and "Next r \<notin> set (effects s)"
  using assms unfolding gone_def by blast+

lemma gone_same:
  "queue (rq s') = queue (rq s) \<Longrightarrow> nextRes s' = nextRes s \<Longrightarrow> effects s' = effects s \<Longrightarrow>
   gone r s' = gone r s"
  by (simp add: gone_def)

lemma gone_processQueue: "gone r s \<Longrightarrow> gone r (processQueue s)"
proof -
  assume g: "gone r s"
  note G = goneD[OF g]
  from processQueue_cases[of s] show ?thesis
  proof (elim disjE exE conjE)
    assume "processQueue s = s" with g show ?thesis by simp
  next
    fix item rest
    assume q: "queue (rq s) = item # rest"
      and p: "processQueue s =
        s\<lparr>rq := (rq s)\<lparr>isProcessing := True, queue := rest,
                      activeRequests := activeRequests (rq s) + 1\<rparr>,
          timers := (timers s)(i_res item := None),
          listeners := (listeners s)(i_res item := listeners s (i_res item) @ [QueuedCleanup]),
          effects := effects s @ [Next (i_res item)]\<rparr>"
    show ?thesis
    proof (rule goneI)
      show "r < nextRes (processQueue s)" using G(1) by (simp add: p)
      show "i_res x \<noteq> r" if "x \<in> set (queue (rq (processQueue s)))" for x
        using that G(2)[of x] q by (simp add: p)
      show "Next r \<notin> set (effects (processQueue s))"
        using G(3) G(2)[of item] q by (simp add: p)
    qed
  qed
qed

lemma gone_runListener: "gone r s \<Longrightarrow> gone r (runListener s l)"
proof (cases l)
  case DirectCleanup
  assume g: "gone r s"
  have "gone r (s\<lparr>rq := (rq s)\<lparr>activeRequests := activeRequests (rq s) - 1\<rparr>\<rparr>)"
    using g by (subst gone_same[of _ s]) simp_all
  then show ?thesis using DirectCleanup by (simp add: cleanupDirect_def gone_processQueue)
next
  case QueuedCleanup
  assume g: "gone r s"
  have "gone r (cleanupQueued s) = gone r s"
    by (rule gone_same) (simp_all add: cleanupQueued_def)
  then show ?thesis using QueuedCleanup g by simp
qed

lemma gone_foldl_runListener: "gone r s \<Longrightarrow> gone r (foldl runListener s ls)"
  by (induction ls arbitrary: s) (simp_all add: gone_runListener)

lemma gone_timeoutCallback: "gone r s \<Longrightarrow> gone r (timeoutCallback item s)"
proof -
  assume g: "gone r s"
  note G = goneD[OF g]
  show ?thesis
  proof (rule goneI)
    show "r < nextRes (timeoutCallback item s)" using G(1) by (simp add: timeoutCallback_def)
    show "i_res x \<noteq> r" if "x \<in> set (queue (rq (timeoutCallback item s)))" for x
    proof -
      from that have "x \<in> set (queue (rq s))"
        using set_remove1_subset[of item "queue (rq s)"]
        by (auto simp: timeoutCallback_def split: if_splits)
      then show ?thesis by (rule G(2))
    qed
    show "Next r \<notin> set (effects (timeoutCallback item s))"
      using G(3) by (simp add: timeoutCallback_def)
  qed
qed

lemma gone_arrive: "gone r s \<Longrightarrow> gone r (step s (Arrive req))"
proof -
  assume g: "gone r s"
  note G = goneD[OF g]
  let ?s0 = "s\<lparr>nextRes := Suc (nextRes s)\<rparr>"
  have st: "step s (Arrive req) = middleware req (nextRes s) ?s0" by simp
  consider (bypass) "bypassesQueue req"
    | (direct) "\<not> bypassesQueue req" "activeRequests (rq s) < maxConcurrent (rq s)"
        "\<not> isUnderPressure s"
    | (enqueue) "\<not> bypassesQueue req"
        "\<not> (activeRequests (rq s) < maxConcurrent (rq s) \<and> \<not> isUnderPressure s)"
    by blast
  then show ?thesis
  proof cases
    case bypass
    show ?thesis unfolding st arrive_bypass[OF bypass]
      using G by (intro goneI) auto
  next
    case direct
    have m: "middleware req (nextRes s) ?s0 =
      ?s0\<lparr>rq := (rq ?s0)\<lparr>activeRequests := activeRequests (rq ?s0) + 1\<rparr>,
       listeners := (listeners ?s0)(nextRes s := listeners ?s0 (nextRes s) @ [DirectCleanup]),
       effects := effects ?s0 @ [Next (nextRes s)]\<rparr>"
      using direct by (intro arrive_direct) simp_all
    show ?thesis unfolding st m
      using G by (intro goneI) auto
  next
    case enqueue
    let ?item = "\<lparr>i_req = req, i_res = nextRes s, isAdmin = isAdminPath req\<rparr>"
    have m: "middleware req (nextRes s) ?s0 =
      ?s0\<lparr>rq := (rq ?s0)\<lparr>queue :=
           (if isAdminPath req then ?item # queue (rq ?s0) else queue (rq ?s0) @ [?item])\<rparr>,
       timers := (timers ?s0)(nextRes s \<mapsto> (?item, 10000))\<rparr>"
      using enqueue by (intro arrive_enqueue) simp_all
    show ?thesis unfolding st m
      using G by (intro goneI) (auto split: if_splits)
  qed
qed

lemma gone_step: "gone r s \<Longrightarrow> gone r (step s ev)"
proof (cases ev)
  case (Arrive req)
  assume "gone r s" then show ?thesis unfolding Arrive by (rule gone_arrive)
next
  case (ResEmits r' e)
  assume "gone r s" then show ?thesis
    unfolding ResEmits by (simp add: emit_def gone_foldl_runListener)
next
  case (TimerFires r')
  assume g: "gone r s"
  have "gone r (s\<lparr>timers := (timers s)(r' := None)\<rparr>)"
    using g by (subst gone_same[of _ s]) simp_all
  then show ?thesis using g TimerFires
    by (auto simp: gone_timeoutCallback split: option.splits)
next
  case RunImmediate
  assume g: "gone r s"
  have "gone r (s\<lparr>immediates := immediates s - 1\<rparr>)"
    using g by (subst gone_same[of _ s]) simp_all
  then show ?thesis using g RunImmediate by (simp add: gone_processQueue)
next
  case (MemorySample b)
  assume g: "gone r s"
  have "gone r (s\<lparr>isUnderPressure := b\<rparr>)"
    using g by (subst gone_same[of _ s]) simp_all
  then show ?thesis using MemorySample by simp
qed

lemma gone_run: "gone r s \<Longrightarrow> gone r (run s evs)"
  unfolding run_def by (induction evs arbitrary: s) (simp_all add: gone_step)

lemma timer_fires_on_queued:
  assumes inv: "queueInv s" and mem: "item \<in> set (queue (rq s))"
  shows "step s (TimerFires (i_res item)) =
     s\<lparr>timers := (timers s)(i_res item := None),
       rq := (rq s)\<lparr>queue := remove1 item (queue (rq s))\<rparr>,
       effects := effects s @ [Json (i_res item) busyResponse]\<rparr>"
  using queueInvD(3)[OF inv mem] mem by (simp add: timeoutCallback_def)

lemma step_emit_direct:
  "listeners s r = [DirectCleanup] \<Longrightarrow>
   step s (ResEmits r ev) =
     processQueue (s\<lparr>rq := (rq s)\<lparr>activeRequests := activeRequests (rq s) - 1\<rparr>\<rparr>)"
  by (simp add: emit_def cleanupDirect_def)

lemma step_emit_queued:
  "listeners s r = [QueuedCleanup] \<Longrightarrow>
   step s (ResEmits r ev) =
     s\<lparr>rq := (rq s)\<lparr>activeRequests := activeRequests (rq s) - 1, isProcessing := False\<rparr>,
       immediates := immediates s + 1\<rparr>"
  by (simp add: emit_def cleanupQueued_def)

lemma waiting_facts:
  "map i_res (queue (rq waiting)) = [2, 1, 3]"
  "effects waiting = [Next 0]"
  "isUnderPressure waiting"
  by code_simp+

subsection \<open>Admission on arrival and completion\<close>

text \<open>
  What \<open>middleware\<close> does with an arriving request, and what one event of a response
  does. A request to a health-check or logout path is passed on at once and leaves the
  queue object as it is. Any other request is passed on at once, with the active count
  incremented, when the active count is below the maximum (30 in the exported instance)
  and the memory is not under pressure; otherwise it is neither passed on nor answered but
  enqueued, at the head of the queue when its path is an admin or analytics path and at
  the tail otherwise, with a timer of 10000 ms. Each time the response of a request
  admitted at once emits \<open>finish\<close>, \<open>close\<close> or \<open>error\<close>, the active count is
  decremented and \<open>processQueue\<close> runs; each time the response of a request admitted
  from the queue emits one of them, the active count is decremented and
  \<open>processQueue\<close> is scheduled, and runs when the scheduled callback does.
\<close>

lemma middleware_admission:
  "(bypassesQueue req \<longrightarrow>
      effects (middleware req r s) = effects s @ [Next r] \<and> rq (middleware req r s) = rq s)
   \<and> (\<not> bypassesQueue req \<and> activeRequests (rq s) < maxConcurrent (rq s) \<and>
       \<not> isUnderPressure s \<longrightarrow>
      effects (middleware req r s) = effects s @ [Next r] \<and>
      activeRequests (rq (middleware req r s)) = activeRequests (rq s) + 1 \<and>
      queue (rq (middleware req r s)) = queue (rq s) \<and>
      listeners (middleware req r s) r = listeners s r @ [DirectCleanup])
   \<and> (\<not> bypassesQueue req \<and>
       \<not> (activeRequests (rq s) < maxConcurrent (rq s) \<and> \<not> isUnderPressure s) \<longrightarrow>
      effects (middleware req r s) = effects s \<and>
      activeRequests (rq (middleware req r s)) = activeRequests (rq s) \<and>
      queue (rq (middleware req r s)) =
        (if isAdminPath req
         then \<lparr>i_req = req, i_res = r, isAdmin = True\<rparr> # queue (rq s)
         else queue (rq s) @ [\<lparr>i_req = req, i_res = r, isAdmin = False\<rparr>]) \<and>
      timers (middleware req r s) r =
        Some (\<lparr>i_req = req, i_res = r, isAdmin = isAdminPath req\<rparr>, 10000))
   \<and> (listeners s r = [DirectCleanup] \<longrightarrow>
      step s (ResEmits r ev) =
        processQueue (s\<lparr>rq := (rq s)\<lparr>activeRequests := activeRequests (rq s) - 1\<rparr>\<rparr>))
   \<and> (listeners s r = [QueuedCleanup] \<longrightarrow>
      activeRequests (rq (step s (ResEmits r ev))) = activeRequests (rq s) - 1 \<and>
      immediates (step s (ResEmits r ev)) = immediates s + 1 \<and>
      step (step s (ResEmits r ev)) RunImmediate =
        processQueue ((step s (ResEmits r ev))\<lparr>immediates := immediates s\<rparr>))
   \<and> maxConcurrent (rq requestQueue) = 30"
proof (intro conjI)
  show "bypassesQueue req \<longrightarrow>
      effects (middleware req r s) = effects s @ [Next r] \<and> rq (middleware req r s) = rq s"
    by (simp add: arrive_bypass)
  show "\<not> bypassesQueue req \<and> activeRequests (rq s) < maxConcurrent (rq s) \<and>
       \<not> isUnderPressure s \<longrightarrow>
      effects (middleware req r s) = effects s @ [Next r] \<and>
      activeRequests (rq (middleware req r s)) = activeRequests (rq s) + 1 \<and>
      queue (rq (middleware req r s)) = queue (rq s) \<and>
      listeners (middleware req r s) r = listeners s r @ [DirectCleanup]"
    by (simp add: arrive_direct)
  show "\<not> bypassesQueue req \<and>
       \<not> (activeRequests (rq s) < maxConcurrent (rq s) \<and> \<not> isUnderPressure s) \<longrightarrow>
      effects (middleware req r s) = effects s \<and>
      activeRequests (rq (middleware req r s)) = activeRequests (rq s) \<and>
      queue (rq (middleware req r s)) =
        (if isAdminPath req
         then \<lparr>i_req = req, i_res = r, isAdmin = True\<rparr> # queue (rq s)
         else queue (rq s) @ [\<lparr>i_req = req, i_res = r, isAdmin = False\<rparr>]) \<and>
      timers (middleware req r s) r =
        Some (\<lparr>i_req = req, i_res = r, isAdmin = isAdminPath req\<rparr>, 10000)"
  proof
    assume a: "\<not> bypassesQueue req \<and>
       \<not> (activeRequests (rq s) < maxConcurrent (rq s) \<and> \<not> isUnderPressure s)"
    then have 1: "\<not> bypassesQueue req"
      and 2: "\<not> (activeRequests (rq s) < maxConcurrent (rq s) \<and> \<not> isUnderPressure s)"
      by blast+
    show "effects (middleware req r s) = effects s \<and>
      activeRequests (rq (middleware req r s)) = activeRequests (rq s) \<and>
      queue (rq (middleware req r s)) =
        (if isAdminPath req
         then \<lparr>i_req = req, i_res = r, isAdmin = True\<rparr> # queue (rq s)
         else queue (rq s) @ [\<lparr>i_req = req, i_res = r, isAdmin = False\<rparr>]) \<and>
      timers (middleware req r s) r =
        Some (\<lparr>i_req = req, i_res = r, isAdmin = isAdminPath req\<rparr>, 10000)"
      unfolding arrive_enqueue[OF 1 2] by simp
  qed
  show "listeners s r = [DirectCleanup] \<longrightarrow>
      step s (ResEmits r ev) =
        processQueue (s\<lparr>rq := (rq s)\<lparr>activeRequests := activeRequests (rq s) - 1\<rparr>\<rparr>)"
    using step_emit_direct by blast
  show "listeners s r = [QueuedCleanup] \<longrightarrow>
      activeRequests (rq (step s (ResEmits r ev))) = activeRequests (rq s) - 1 \<and>
      immediates (step s (ResEmits r ev)) = immediates s + 1 \<and>
      step (step s (ResEmits r ev)) RunImmediate =
        processQueue ((step s (ResEmits r ev))\<lparr>immediates := immediates s\<rparr>)"
  proof
    assume l: "listeners s r = [QueuedCleanup]"
    show "activeRequests (rq (step s (ResEmits r ev))) = activeRequests (rq s) - 1 \<and>
      immediates (step s (ResEmits r ev)) = immediates s + 1 \<and>
      step (step s (ResEmits r ev)) RunImmediate =
        processQueue ((step s (ResEmits r ev))\<lparr>immediates := immediates s\<rparr>)"
      unfolding step_emit_queued[OF l] by simp
  qed
  show "maxConcurrent (rq requestQueue) = 30"
    by (simp add: requestQueue_def newSystem_def)
qed

lemma middleware_admission_example:
  "bypassesQueue logoutReq
   \<and> effects (middleware logoutReq 7 waiting) = [Next 0, Next 7]
   \<and> effects (middleware projectsReq 0 (newSystem 30)) = [Next 0]
   \<and> activeRequests (rq (middleware projectsReq 0 (newSystem 30))) = 1
   \<and> map i_res (queue (rq (middleware analyticsReq 7 waiting))) = [7, 2, 1, 3]
   \<and> map i_res (queue (rq (middleware projectsReq 7 waiting))) = [2, 1, 3, 7]
   \<and> effects (middleware projectsReq 7 waiting) = [Next 0]
   \<and> activeRequests (rq (step (middleware projectsReq 0 (newSystem 30)) (ResEmits 0 Finish))) = 0"
proof -
  have b: "bypassesQueue logoutReq" "\<not> bypassesQueue projectsReq" "\<not> bypassesQueue analyticsReq"
    "isAdminPath analyticsReq" "\<not> isAdminPath projectsReq"
    by code_simp+
  have n: "activeRequests (rq (newSystem 30)) < maxConcurrent (rq (newSystem 30))"
    "\<not> isUnderPressure (newSystem 30)" "effects (newSystem 30) = []"
    "activeRequests (rq (newSystem 30)) = 0" "listeners (newSystem 30) 0 = []"
    "queue (rq (newSystem 30)) = []"
    by (simp_all add: newSystem_def)
  note w = waiting_facts
  from middleware_admission [of logoutReq 7 waiting] b(1) w(2)
  have 1: "effects (middleware logoutReq 7 waiting) = [Next 0, Next 7]" by simp
  from middleware_admission [of projectsReq 0 "newSystem 30"] b(2) n
  have 2: "effects (middleware projectsReq 0 (newSystem 30)) = [Next 0]"
    "activeRequests (rq (middleware projectsReq 0 (newSystem 30))) = 1"
    "listeners (middleware projectsReq 0 (newSystem 30)) 0 = [DirectCleanup]"
    "queue (rq (middleware projectsReq 0 (newSystem 30))) = []"
    by simp_all
  from middleware_admission [of analyticsReq 7 waiting] b(3,4) w
  have 3: "map i_res (queue (rq (middleware analyticsReq 7 waiting))) = [7, 2, 1, 3]" by simp
  from middleware_admission [of projectsReq 7 waiting] b(2,5) w
  have 4: "map i_res (queue (rq (middleware projectsReq 7 waiting))) = [2, 1, 3, 7]"
    "effects (middleware projectsReq 7 waiting) = [Next 0]" by simp_all
  let ?s = "middleware projectsReq 0 (newSystem 30)"
  from middleware_admission [of projectsReq 0 ?s Finish] 2(3)
  have "step ?s (ResEmits 0 Finish) =
      processQueue (?s\<lparr>rq := (rq ?s)\<lparr>activeRequests := activeRequests (rq ?s) - 1\<rparr>\<rparr>)"
    by blast
  also have "\<dots> = ?s\<lparr>rq := (rq ?s)\<lparr>activeRequests := activeRequests (rq ?s) - 1\<rparr>\<rparr>"
    by (rule processQueue_blocked) (simp add: 2(4))
  finally have 5: "activeRequests (rq (step ?s (ResEmits 0 Finish))) = 0"
    by (simp add: 2(2))
  from b(1) 1 2(1,2) 3 4 5 show ?thesis by blast
qed

lemma emit_direct_idle:
  assumes "listeners s r = [DirectCleanup]" "queue (rq s) = []"
  shows "step s (ResEmits r ev) = s\<lparr>rq := (rq s)\<lparr>activeRequests := activeRequests (rq s) - 1\<rparr>\<rparr>"
  unfolding step_emit_direct[OF assms(1)]
  by (rule processQueue_blocked) (simp add: assms(2))

text \<open>
  Claim C4 says that a request admitted at once or from the queue raises the active count
  by one, and that on its completion (success, client-disconnect, or error) the active
  count is decremented and a queue drain is triggered. Both \<open>middleware\<close> and
  \<open>processQueue\<close> register the same \<open>cleanup\<close> closure on \<open>finish\<close>, on
  \<open>close\<close> and on \<open>error\<close> of the response, so as to catch every way a request can
  end, and nothing removes the closure or remembers that it has run. A response that is
  sent to its end emits \<open>finish\<close> and then \<open>close\<close>: \<open>cleanup\<close> runs at each, and
  one completion takes two from the active count, for a request admitted at once (with
  nothing queued) and for a request admitted from the queue alike. On the exported queue,
  one request served to its end leaves the active count at -1 and three leave it at -3, so
  the count no longer says how many requests are being handled and the bound of 30 is not
  the bound in force.
\<close>

theorem completion_decrements_twice:
  "(listeners s r = [DirectCleanup] \<and> queue (rq s) = [] \<longrightarrow>
      activeRequests (rq (run s [ResEmits r Finish])) = activeRequests (rq s) - 1 \<and>
      activeRequests (rq (run s [ResEmits r Finish, ResEmits r Close])) =
        activeRequests (rq s) - 2)
   \<and> (listeners s r = [QueuedCleanup] \<longrightarrow>
      activeRequests (rq (run s [ResEmits r Finish])) = activeRequests (rq s) - 1 \<and>
      activeRequests (rq (run s [ResEmits r Finish, ResEmits r Close])) =
        activeRequests (rq s) - 2)
   \<and> activeRequests (rq (run requestQueue [Arrive projectsReq])) = 1
   \<and> activeRequests (rq (run requestQueue
        [Arrive projectsReq, ResEmits 0 Finish, ResEmits 0 Close])) = - 1
   \<and> activeRequests (rq (run requestQueue threeRequests)) = - 3"
proof (intro conjI)
  show "listeners s r = [DirectCleanup] \<and> queue (rq s) = [] \<longrightarrow>
      activeRequests (rq (run s [ResEmits r Finish])) = activeRequests (rq s) - 1 \<and>
      activeRequests (rq (run s [ResEmits r Finish, ResEmits r Close])) =
        activeRequests (rq s) - 2"
  proof
    assume a: "listeners s r = [DirectCleanup] \<and> queue (rq s) = []"
    let ?s1 = "s\<lparr>rq := (rq s)\<lparr>activeRequests := activeRequests (rq s) - 1\<rparr>\<rparr>"
    from a have 1: "step s (ResEmits r Finish) = ?s1"
      by (simp only: emit_direct_idle)
    from a have "listeners ?s1 r = [DirectCleanup]" "queue (rq ?s1) = []" by simp_all
    then have 2: "step ?s1 (ResEmits r Close) =
        ?s1\<lparr>rq := (rq ?s1)\<lparr>activeRequests := activeRequests (rq ?s1) - 1\<rparr>\<rparr>"
      by (rule emit_direct_idle)
    show "activeRequests (rq (run s [ResEmits r Finish])) = activeRequests (rq s) - 1 \<and>
      activeRequests (rq (run s [ResEmits r Finish, ResEmits r Close])) =
        activeRequests (rq s) - 2"
      unfolding run_def foldl.simps 1 2 by simp
  qed
  show "listeners s r = [QueuedCleanup] \<longrightarrow>
      activeRequests (rq (run s [ResEmits r Finish])) = activeRequests (rq s) - 1 \<and>
      activeRequests (rq (run s [ResEmits r Finish, ResEmits r Close])) =
        activeRequests (rq s) - 2"
  proof
    assume a: "listeners s r = [QueuedCleanup]"
    let ?s1 = "s\<lparr>rq := (rq s)\<lparr>activeRequests := activeRequests (rq s) - 1, isProcessing := False\<rparr>,
       immediates := immediates s + 1\<rparr>"
    from a have 1: "step s (ResEmits r Finish) = ?s1" by (rule step_emit_queued)
    from a have "listeners ?s1 r = [QueuedCleanup]" by simp
    then have 2: "step ?s1 (ResEmits r Close) =
        ?s1\<lparr>rq := (rq ?s1)\<lparr>activeRequests := activeRequests (rq ?s1) - 1, isProcessing := False\<rparr>,
          immediates := immediates ?s1 + 1\<rparr>"
      by (rule step_emit_queued)
    show "activeRequests (rq (run s [ResEmits r Finish])) = activeRequests (rq s) - 1 \<and>
      activeRequests (rq (run s [ResEmits r Finish, ResEmits r Close])) =
        activeRequests (rq s) - 2"
      unfolding run_def foldl.simps 1 2 by simp
  qed
  show "activeRequests (rq (run requestQueue [Arrive projectsReq])) = 1"
    by code_simp
  show "activeRequests (rq (run requestQueue
        [Arrive projectsReq, ResEmits 0 Finish, ResEmits 0 Close])) = - 1"
    by code_simp
  show "activeRequests (rq (run requestQueue threeRequests)) = - 3"
    by code_simp
qed

theorem completion_decrements_twice_witness:
  "listeners (run requestQueue [Arrive projectsReq]) 0 = [DirectCleanup]
   \<and> queue (rq (run requestQueue [Arrive projectsReq])) = []
   \<and> activeRequests (rq (run requestQueue [Arrive projectsReq])) = 1
   \<and> activeRequests (rq (run (run requestQueue [Arrive projectsReq]) [ResEmits 0 Finish])) = 0
   \<and> activeRequests (rq (run (run requestQueue [Arrive projectsReq])
        [ResEmits 0 Finish, ResEmits 0 Close])) = - 1
   \<and> listeners (run waiting [MemorySample False, ResEmits 0 Finish]) 2 = [QueuedCleanup]
   \<and> activeRequests (rq (run waiting [MemorySample False, ResEmits 0 Finish])) = 1
   \<and> activeRequests (rq (run (run waiting [MemorySample False, ResEmits 0 Finish])
        [ResEmits 2 Finish, ResEmits 2 Close])) = - 1"
proof -
  let ?s = "run requestQueue [Arrive projectsReq]"
  let ?t = "run waiting [MemorySample False, ResEmits 0 Finish]"
  have 1: "listeners ?s 0 = [DirectCleanup]" "queue (rq ?s) = []" "activeRequests (rq ?s) = 1"
    by code_simp+
  have 2: "listeners ?t 2 = [QueuedCleanup]" "activeRequests (rq ?t) = 1"
    by code_simp+
  from completion_decrements_twice [of ?s 0] 1
  have 3: "activeRequests (rq (run ?s [ResEmits 0 Finish])) = 0"
    "activeRequests (rq (run ?s [ResEmits 0 Finish, ResEmits 0 Close])) = - 1"
    by simp_all
  from completion_decrements_twice [of ?t 2] 2
  have 4: "activeRequests (rq (run ?t [ResEmits 2 Finish, ResEmits 2 Close])) = - 1"
    by simp
  from 1 2 3 4 show ?thesis by blast
qed

subsection \<open>Order of service\<close>

text \<open>
  Claim C5, as stated: priority entries are served before normal entries, and entries of
  equal priority are admitted in the order of their arrival. An admin request is put at
  the head of the queue (\<open>unshift\<close>), in front of the admin requests that arrived
  before it: of two admin requests that wait during memory pressure, the second to arrive
  (handle 2) stands before the first (handle 1) and is admitted first when the pressure
  ends, while the first still waits.
\<close>

theorem fifo_counterexample:
  "map i_res (queue (rq (run requestQueue (take 4 pressureTrace)))) = [2, 1]
   \<and> map isAdmin (queue (rq (run requestQueue (take 4 pressureTrace)))) = [True, True]
   \<and> \<not> sorted_wrt spec_queueOrder (queue (rq (run requestQueue (take 4 pressureTrace))))
   \<and> effects (run requestQueue pressureTrace) = [Next 0, Next 2]
   \<and> map i_res (queue (rq (run requestQueue pressureTrace))) = [1, 3]"
  by code_simp

text \<open>
  Claim C5, amended: in every reachable state of the queue, for every pair of queued
  entries, an admin entry stands before every normal entry, normal entries stand in the
  order of their arrival, and admin entries stand in the reverse order of their arrival
  (the latest first); and whenever \<open>processQueue\<close> admits an entry, it is the entry at
  the head of the queue.
\<close>

theorem queue_order:
  "sorted_wrt queueOrder (queue (rq (run (newSystem m) evs)))
   \<and> (processQueue s \<noteq> s \<longrightarrow>
        (\<exists>item rest. queue (rq s) = item # rest \<and> queue (rq (processQueue s)) = rest \<and>
           effects (processQueue s) = effects s @ [Next (i_res item)]))"
proof
  show "sorted_wrt queueOrder (queue (rq (run (newSystem m) evs)))"
    by (rule queueInvD(6)[OF queueInv_reachable])
  show "processQueue s \<noteq> s \<longrightarrow>
        (\<exists>item rest. queue (rq s) = item # rest \<and> queue (rq (processQueue s)) = rest \<and>
           effects (processQueue s) = effects s @ [Next (i_res item)])"
  proof
    assume ne: "processQueue s \<noteq> s"
    with processQueue_cases[of s] obtain item rest where q: "queue (rq s) = item # rest"
      and p: "processQueue s =
        s\<lparr>rq := (rq s)\<lparr>isProcessing := True, queue := rest,
                      activeRequests := activeRequests (rq s) + 1\<rparr>,
          timers := (timers s)(i_res item := None),
          listeners := (listeners s)(i_res item := listeners s (i_res item) @ [QueuedCleanup]),
          effects := effects s @ [Next (i_res item)]\<rparr>"
      by blast
    have "queue (rq (processQueue s)) = rest"
      "effects (processQueue s) = effects s @ [Next (i_res item)]"
      by (simp_all add: p)
    with q show "\<exists>item rest. queue (rq s) = item # rest \<and> queue (rq (processQueue s)) = rest \<and>
           effects (processQueue s) = effects s @ [Next (i_res item)]" by blast
  qed
qed

theorem queue_order_witness:
  "sorted_wrt queueOrder (queue (rq waiting))
   \<and> map i_res (queue (rq waiting)) = [2, 1, 3]
   \<and> map isAdmin (queue (rq waiting)) = [True, True, False]
   \<and> effects (processQueue (step waiting (MemorySample False))) = [Next 0, Next 2]
   \<and> map i_res (queue (rq (processQueue (step waiting (MemorySample False))))) = [1, 3]"
proof -
  let ?s = "step waiting (MemorySample False)"
  have q: "map i_res (queue (rq ?s)) = [2, 1, 3]" "effects ?s = [Next 0]"
    "map isAdmin (queue (rq waiting)) = [True, True, False]"
    by code_simp+
  have e: "effects (processQueue ?s) = [Next 0, Next 2]" by code_simp
  with q(2) have ne: "processQueue ?s \<noteq> ?s" by auto
  from queue_order [of 30 "take 5 pressureTrace" ?s] ne
  obtain item rest where s: "sorted_wrt queueOrder (queue (rq waiting))"
    and h: "queue (rq ?s) = item # rest" "queue (rq (processQueue ?s)) = rest"
    unfolding waiting_def by blast
  from h q(1) have "map i_res (queue (rq (processQueue ?s))) = [1, 3]" by simp
  with s e q(3) waiting_facts(1) show ?thesis by blast
qed

subsection \<open>Timeout of a queued request\<close>

text \<open>
  Claim C6: in every reachable state, every queued entry has its timer pending with a
  delay of 10000 ms and has not been admitted; when the timer fires, the entry is removed
  from the queue and its request is answered with status 503 and a body with code
  \<open>SERVER_BUSY\<close> (a rate-limit rejection has status 429); and whatever happens
  afterwards, the request is never admitted.
\<close>

theorem timed_out_never_admitted:
  assumes reach: "s = run (newSystem m) evs" and mem: "item \<in> set (queue (rq s))"
  shows "timers s (i_res item) = Some (item, 10000)
     \<and> Next (i_res item) \<notin> set (effects s)
     \<and> item \<notin> set (queue (rq (step s (TimerFires (i_res item)))))
     \<and> effects (step s (TimerFires (i_res item))) =
         effects s @ [Json (i_res item)
           \<lparr>status = 503, json = BusyBody False ''Server is busy. Please try again later.''
              ''SERVER_BUSY''\<rparr>]
     \<and> Next (i_res item) \<notin> set (effects (run (step s (TimerFires (i_res item))) evs'))"
proof -
  have inv: "queueInv s" unfolding reach by (rule queueInv_reachable)
  note D = queueInvD[OF inv]
  let ?s' = "step s (TimerFires (i_res item))"
  note fire = timer_fires_on_queued[OF inv mem]
  have q': "queue (rq ?s') = remove1 item (queue (rq s))" by (subst fire) simp
  have n': "nextRes ?s' = nextRes s" by (subst fire) simp
  have eff: "effects ?s' = effects s @ [Json (i_res item) busyResponse]" by (subst fire) simp
  from D(1) have dq: "distinct (queue (rq s))" by (simp add: distinct_map)
  have out: "item \<notin> set (queue (rq ?s'))" using dq unfolding q' by simp
  have g: "gone (i_res item) ?s'"
  proof (rule goneI)
    show "i_res item < nextRes ?s'" using D(2)[OF mem] unfolding n' .
    show "i_res x \<noteq> i_res item" if "x \<in> set (queue (rq ?s'))" for x
    proof -
      from that dq have "x \<in> set (queue (rq s))" "x \<noteq> item" unfolding q' by simp_all
      then show ?thesis using handles_differ[OF D(1) _ mem] by blast
    qed
    show "Next (i_res item) \<notin> set (effects ?s')" using D(4)[OF mem] unfolding eff by simp
  qed
  have "Next (i_res item) \<notin> set (effects (run ?s' evs'))"
    by (rule goneD(3)[OF gone_run[OF g]])
  with D(3)[OF mem] D(4)[OF mem] out eff show ?thesis
    unfolding busyResponse_def by blast
qed

theorem timed_out_never_admitted_witness:
  "adminItem \<in> set (queue (rq waiting))
   \<and> timers waiting 1 = Some (adminItem, 10000)
   \<and> adminItem \<notin> set (queue (rq (step waiting (TimerFires 1))))
   \<and> effects (step waiting (TimerFires 1)) =
        [Next 0, Json 1 \<lparr>status = 503,
           json = BusyBody False ''Server is busy. Please try again later.'' ''SERVER_BUSY''\<rparr>]
   \<and> Next 1 \<notin> set (effects (run (step waiting (TimerFires 1))
        [MemorySample False, ResEmits 0 Finish, ResEmits 2 Close, RunImmediate,
         ResEmits 3 Finish, RunImmediate, TimerFires 1]))"
proof -
  have reach: "waiting = run (newSystem 30) (take 5 pressureTrace)" by (simp add: waiting_def)
  have mem: "adminItem \<in> set (queue (rq waiting))" by code_simp
  have h: "i_res adminItem = 1" by (simp add: adminItem_def)
  have e: "effects waiting = [Next 0]" by code_simp
  from timed_out_never_admitted [OF reach mem] mem show ?thesis
    unfolding h e by (simp del: step.simps)
qed


end
